theory Spec2Isabelle
  imports Main "HOL-Library.Word" "HOL-Library.Monad_Syntax"
begin

unbundle bit_operations_syntax

section \<open>Memory, pointers and views\<close>

text \<open>
  The library of \<^verbatim>\<open>file.h\<close> works on borrowed character storage. The storage is a list
  of code units, a pointer is an offset into it (one past the end included), and a
  \<^verbatim>\<open>std::string_view\<close> is a pointer with a length. A read outside the
  storage is undefined behaviour in the source; here it is the value \<open>None\<close>, and every
  function of the library returns an option so that such a read is never hidden.
\<close>

type_synonym char8 = "8 word"
type_synonym wchar = "16 word"

record string_view =
  sv_data :: nat
  sv_size :: nat

text \<open>\<^verbatim>\<open>p[i]\<close> for a pointer \<open>p\<close> and a (possibly negative) index \<open>i\<close>.\<close>

definition idx :: "'u list \<Rightarrow> nat \<Rightarrow> int \<Rightarrow> 'u option" where
  "idx mem p i =
     (let a = int p + i
      in if 0 \<le> a \<and> a < int (length mem) then Some (mem ! nat a) else None)"

text \<open>\<^verbatim>\<open>a - b\<close> on pointers: a signed difference.\<close>

definition ptr_diff :: "nat \<Rightarrow> nat \<Rightarrow> int" where
  "ptr_diff a b = int a - int b"

text \<open>\<^verbatim>\<open>static_cast<size_t>(d)\<close> of a pointer difference: a negative one wraps around.\<close>

definition size_t_cast :: "int \<Rightarrow> nat" where
  "size_t_cast d = (if 0 \<le> d then nat d else nat (d + 2 ^ 64))"

text \<open>The short-circuit operators \<^verbatim>\<open>&&\<close> and \<^verbatim>\<open>||\<close> over operands that may fail.\<close>

definition and_then :: "bool option \<Rightarrow> bool option \<Rightarrow> bool option" where
  "and_then a b = (case a of None \<Rightarrow> None | Some x \<Rightarrow> if x then b else Some False)"

definition or_else :: "bool option \<Rightarrow> bool option \<Rightarrow> bool option" where
  "or_else a b = (case a of None \<Rightarrow> None | Some x \<Rightarrow> if x then Some True else b)"

text \<open>The units the view covers, and the units of a pointer pair \<open>[first, last)\<close>.\<close>

definition sv_contents :: "'u list \<Rightarrow> string_view \<Rightarrow> 'u list" where
  "sv_contents mem v = take (sv_size v) (drop (sv_data v) mem)"

definition span :: "'u list \<Rightarrow> nat \<Rightarrow> nat \<Rightarrow> 'u list" where
  "span mem First Last = take (Last - First) (drop First mem)"

definition sv_valid :: "'u list \<Rightarrow> string_view \<Rightarrow> bool" where
  "sv_valid mem v = (sv_data v + sv_size v \<le> length mem)"

text \<open>A narrow string literal as storage: one code unit for each character.\<close>

definition bytes :: "string \<Rightarrow> char8 list" where
  "bytes s = map of_char s"

definition whole :: "'u list \<Rightarrow> string_view" where
  "whole mem = \<lparr>sv_data = 0, sv_size = length mem\<rparr>"

text \<open>A component function applied to a whole path, giving the units of the view it returns.\<close>

definition on_path :: "('u list \<Rightarrow> string_view \<Rightarrow> string_view option) \<Rightarrow> 'u list \<Rightarrow> 'u list option" where
  "on_path f p = map_option (sv_contents p) (f p (whole p))"

subsection \<open>The standard algorithms the library calls\<close>

text \<open>
  \<^verbatim>\<open>std::find_if(first, last, pred)\<close> walks forward until \<open>pred\<close> holds or \<open>last\<close>
  is reached; \<^verbatim>\<open>std::find_if_not\<close> and \<^verbatim>\<open>std::find\<close> are the same walk with
  another test.
\<close>

function std_find_if :: "('u \<Rightarrow> bool) \<Rightarrow> 'u list \<Rightarrow> nat \<Rightarrow> nat \<Rightarrow> nat option" where
  "std_find_if pred mem First Last =
     (if First = Last then Some Last
      else if First < length mem
        then (if pred (mem ! First) then Some First
              else std_find_if pred mem (First + 1) Last)
        else None)"
  by pat_completeness auto
termination
  by (relation "measure (\<lambda>(pred, mem, First, Last). length mem - First)") auto

declare std_find_if.simps [simp del]

definition std_find_if_not :: "('u \<Rightarrow> bool) \<Rightarrow> 'u list \<Rightarrow> nat \<Rightarrow> nat \<Rightarrow> nat option" where
  "std_find_if_not pred mem First Last = std_find_if (\<lambda>c. \<not> pred c) mem First Last"

definition std_find :: "'u list \<Rightarrow> nat \<Rightarrow> nat \<Rightarrow> 'u \<Rightarrow> nat option" where
  "std_find mem First Last v = std_find_if (\<lambda>c. c = v) mem First Last"

section \<open>Namespace utf8: 8-bit code units\<close>

definition utf8_ascii_lowercase :: "char8 \<Rightarrow> char8" where
  "utf8_ascii_lowercase c = c OR (0x61 - 0x41)"

definition utf8_ascii_uppercase :: "char8 \<Rightarrow> char8" where
  "utf8_ascii_uppercase c = c AND NOT (0x61 - 0x41)"

text \<open>
  \<^verbatim>\<open>is_drive_prefix\<close> takes one pointer; its precondition (at least two units at
  \<open>_First\<close>) is the guard, and a call that violates it is \<open>None\<close>. The subtraction and the
  comparison are those of \<^verbatim>\<open>uint8_t\<close>: the difference wraps around.
\<close>

definition utf8_is_drive_prefix :: "char8 list \<Rightarrow> nat \<Rightarrow> bool option" where
  "utf8_is_drive_prefix mem First =
     (if First + 2 \<le> length mem
      then Some (utf8_ascii_lowercase (mem ! First) - 0x61 < 26 \<and> mem ! (First + 1) = 0x3A)
      else None)"

definition utf8_has_drive_letter_prefix :: "char8 list \<Rightarrow> nat \<Rightarrow> nat \<Rightarrow> bool option" where
  "utf8_has_drive_letter_prefix mem First Last =
     and_then (Some (ptr_diff Last First \<ge> 2)) (utf8_is_drive_prefix mem First)"

definition utf8_is_slash :: "char8 \<Rightarrow> bool" where
  "utf8_is_slash c = (c = 0x5C \<or> c = 0x2F)"

definition utf8_find_root_name_end :: "char8 list \<Rightarrow> nat \<Rightarrow> nat \<Rightarrow> nat option" where
  "utf8_find_root_name_end mem First Last =
     (if ptr_diff Last First < 2 then Some First
      else do {
        drive \<leftarrow> utf8_has_drive_letter_prefix mem First Last;
        if drive then Some (First + 2)
        else do {
          c0 \<leftarrow> idx mem First 0;
          if \<not> utf8_is_slash c0 then Some First
          else do {
            device \<leftarrow>
              and_then (Some (ptr_diff Last First \<ge> 4))
             (and_then (map_option utf8_is_slash (idx mem First 3))
             (and_then (or_else (Some (ptr_diff Last First = 4))
                                (map_option (\<lambda>c. \<not> utf8_is_slash c) (idx mem First 4)))
                       (or_else (and_then (map_option utf8_is_slash (idx mem First 1))
                                          (or_else (map_option (\<lambda>c. c = 0x3F) (idx mem First 2))
                                                   (map_option (\<lambda>c. c = 0x2E) (idx mem First 2))))
                                (and_then (map_option (\<lambda>c. c = 0x3F) (idx mem First 1))
                                          (map_option (\<lambda>c. c = 0x3F) (idx mem First 2))))));
            if device then Some (First + 3)
            else do {
              unc \<leftarrow>
                and_then (Some (ptr_diff Last First \<ge> 3))
               (and_then (map_option utf8_is_slash (idx mem First 1))
                         (map_option (\<lambda>c. \<not> utf8_is_slash c) (idx mem First 2)));
              if unc then std_find_if utf8_is_slash mem (First + 3) Last
              else Some First
            }
          }
        }
      })"

definition utf8_root_name :: "char8 list \<Rightarrow> string_view \<Rightarrow> string_view option" where
  "utf8_root_name mem path =
     (let data = sv_data path; tail = data + sv_size path
      in do {
        e \<leftarrow> utf8_find_root_name_end mem data tail;
        Some \<lparr>sv_data = data, sv_size = size_t_cast (ptr_diff e data)\<rparr>
      })"

definition utf8_find_relative_path :: "char8 list \<Rightarrow> nat \<Rightarrow> nat \<Rightarrow> nat option" where
  "utf8_find_relative_path mem First Last =
     do {
       e \<leftarrow> utf8_find_root_name_end mem First Last;
       std_find_if_not utf8_is_slash mem e Last
     }"

definition utf8_relative_path :: "char8 list \<Rightarrow> string_view \<Rightarrow> string_view option" where
  "utf8_relative_path mem path =
     (let data = sv_data path; tail = data + sv_size path
      in do {
        relative_path \<leftarrow> utf8_find_relative_path mem data tail;
        Some \<lparr>sv_data = relative_path, sv_size = size_t_cast (ptr_diff tail relative_path)\<rparr>
      })"

text \<open>The first loop of \<^verbatim>\<open>parent_path\<close> (and the loop of \<^verbatim>\<open>find_filename\<close>, which is
  the same text): retreat while the unit before the tail is not a slash.\<close>

function utf8_retreat_filename :: "char8 list \<Rightarrow> nat \<Rightarrow> nat \<Rightarrow> nat option" where
  "utf8_retreat_filename mem rel_path tail =
     (if rel_path \<noteq> tail
      then (case idx mem tail (- 1) of
              None \<Rightarrow> None
            | Some c \<Rightarrow>
                if \<not> utf8_is_slash c then utf8_retreat_filename mem rel_path (tail - 1)
                else Some tail)
      else Some tail)"
  by pat_completeness auto
termination
  by (relation "measure (\<lambda>(mem, rel_path, tail). tail)")
     (auto simp: idx_def Let_def split: if_splits)

declare utf8_retreat_filename.simps [simp del]

text \<open>The second loop of \<^verbatim>\<open>parent_path\<close>: retreat while the unit before the tail is a
  slash.\<close>

function utf8_retreat_slashes :: "char8 list \<Rightarrow> nat \<Rightarrow> nat \<Rightarrow> nat option" where
  "utf8_retreat_slashes mem rel_path tail =
     (if rel_path \<noteq> tail
      then (case idx mem tail (- 1) of
              None \<Rightarrow> None
            | Some c \<Rightarrow>
                if utf8_is_slash c then utf8_retreat_slashes mem rel_path (tail - 1)
                else Some tail)
      else Some tail)"
  by pat_completeness auto
termination
  by (relation "measure (\<lambda>(mem, rel_path, tail). tail)")
     (auto simp: idx_def Let_def split: if_splits)

declare utf8_retreat_slashes.simps [simp del]

definition utf8_parent_path :: "char8 list \<Rightarrow> string_view \<Rightarrow> string_view option" where
  "utf8_parent_path mem path =
     (let data = sv_data path; tail = data + sv_size path
      in do {
        rel_path \<leftarrow> utf8_find_relative_path mem data tail;
        tail1 \<leftarrow> utf8_retreat_filename mem rel_path tail;
        tail2 \<leftarrow> utf8_retreat_slashes mem rel_path tail1;
        Some \<lparr>sv_data = data, sv_size = size_t_cast (ptr_diff tail2 data)\<rparr>
      })"

definition utf8_find_filename :: "char8 list \<Rightarrow> nat \<Rightarrow> nat \<Rightarrow> nat option" where
  "utf8_find_filename mem path path_end =
     do {
       relative_path \<leftarrow> utf8_find_relative_path mem path path_end;
       utf8_retreat_filename mem relative_path path_end
     }"

definition utf8_filename :: "char8 list \<Rightarrow> string_view \<Rightarrow> string_view option" where
  "utf8_filename mem path =
     (let data = sv_data path; tail = data + sv_size path
      in do {
        f \<leftarrow> utf8_find_filename mem data tail;
        Some \<lparr>sv_data = f, sv_size = size_t_cast (ptr_diff tail f)\<rparr>
      })"

text \<open>The loop of \<^verbatim>\<open>find_extension\<close>: \<^verbatim>\<open>while (filename != --extension)\<close>. The
  pointer is decremented before the test; decrementing it below the storage is \<open>None\<close>.\<close>

function utf8_find_extension_loop :: "char8 list \<Rightarrow> nat \<Rightarrow> nat \<Rightarrow> nat \<Rightarrow> nat option" where
  "utf8_find_extension_loop mem filename extension additional =
     (if extension = 0 then None
      else if filename \<noteq> extension - 1
        then (case idx mem (extension - 1) 0 of
                None \<Rightarrow> None
              | Some c \<Rightarrow>
                  if c = 0x2E then Some (extension - 1)
                  else utf8_find_extension_loop mem filename (extension - 1) additional)
        else Some additional)"
  by pat_completeness auto
termination
  by (relation "measure (\<lambda>(mem, filename, extension, additional). extension)") auto

declare utf8_find_extension_loop.simps [simp del]

text \<open>\<^verbatim>\<open>find_extension\<close>. The comparison \<^verbatim>\<open>filename == extension - 1\<close> is one of
  addresses; \<^verbatim>\<open>--extension\<close> on the start of the storage is \<open>None\<close>.\<close>

definition utf8_find_extension :: "char8 list \<Rightarrow> nat \<Rightarrow> nat \<Rightarrow> nat option" where
  "utf8_find_extension mem filename additional =
     (if filename = additional then Some additional
      else if additional = 0 then None
      else let extension = additional - 1
        in if filename = extension then Some additional
           else do {
             c \<leftarrow> idx mem extension 0;
             if c = 0x2E
             then do {
               dotdot \<leftarrow> and_then (Some (int filename = int extension - 1))
                                  (map_option (\<lambda>c. c = 0x2E) (idx mem extension (- 1)));
               if dotdot then Some additional else Some extension
             }
             else utf8_find_extension_loop mem filename extension additional
           })"

definition utf8_stem :: "char8 list \<Rightarrow> string_view \<Rightarrow> string_view option" where
  "utf8_stem mem path =
     (let data = sv_data path; tail = data + sv_size path
      in do {
        fname \<leftarrow> utf8_find_filename mem data tail;
        ads \<leftarrow> std_find mem fname tail 0x3A;
        exts \<leftarrow> utf8_find_extension mem fname ads;
        Some \<lparr>sv_data = fname, sv_size = size_t_cast (ptr_diff exts fname)\<rparr>
      })"

definition utf8_extension :: "char8 list \<Rightarrow> string_view \<Rightarrow> string_view option" where
  "utf8_extension mem path =
     (let data = sv_data path; tail = data + sv_size path
      in do {
        fname \<leftarrow> utf8_find_filename mem data tail;
        addtional \<leftarrow> std_find mem fname tail 0x3A;
        exts \<leftarrow> utf8_find_extension mem fname addtional;
        Some \<lparr>sv_data = exts, sv_size = size_t_cast (ptr_diff addtional exts)\<rparr>
      })"

section \<open>Namespace wide: 16-bit code units\<close>

text \<open>The second copy of the library in \<^verbatim>\<open>file.h\<close>, over \<^verbatim>\<open>wchar_t\<close>. It is translated
  from its own text, function by function.\<close>

definition wide_ascii_lowercase :: "wchar \<Rightarrow> wchar" where
  "wide_ascii_lowercase c = c OR (0x61 - 0x41)"

definition wide_ascii_uppercase :: "wchar \<Rightarrow> wchar" where
  "wide_ascii_uppercase c = c AND NOT (0x61 - 0x41)"

text \<open>
  \<^verbatim>\<open>is_drive_prefix\<close> takes one pointer; its precondition (at least two units at
  \<open>_First\<close>) is the guard, and a call that violates it is \<open>None\<close>. The subtraction and the
  comparison are those of \<^verbatim>\<open>uint16_t\<close>: the difference wraps around.
\<close>

definition wide_is_drive_prefix :: "wchar list \<Rightarrow> nat \<Rightarrow> bool option" where
  "wide_is_drive_prefix mem First =
     (if First + 2 \<le> length mem
      then Some (wide_ascii_lowercase (mem ! First) - 0x61 < 26 \<and> mem ! (First + 1) = 0x3A)
      else None)"

definition wide_has_drive_letter_prefix :: "wchar list \<Rightarrow> nat \<Rightarrow> nat \<Rightarrow> bool option" where
  "wide_has_drive_letter_prefix mem First Last =
     and_then (Some (ptr_diff Last First \<ge> 2)) (wide_is_drive_prefix mem First)"

definition wide_is_slash :: "wchar \<Rightarrow> bool" where
  "wide_is_slash c = (c = 0x5C \<or> c = 0x2F)"

definition wide_find_root_name_end :: "wchar list \<Rightarrow> nat \<Rightarrow> nat \<Rightarrow> nat option" where
  "wide_find_root_name_end mem First Last =
     (if ptr_diff Last First < 2 then Some First
      else do {
        drive \<leftarrow> wide_has_drive_letter_prefix mem First Last;
        if drive then Some (First + 2)
        else do {
          c0 \<leftarrow> idx mem First 0;
          if \<not> wide_is_slash c0 then Some First
          else do {
            device \<leftarrow>
              and_then (Some (ptr_diff Last First \<ge> 4))
             (and_then (map_option wide_is_slash (idx mem First 3))
             (and_then (or_else (Some (ptr_diff Last First = 4))
                                (map_option (\<lambda>c. \<not> wide_is_slash c) (idx mem First 4)))
                       (or_else (and_then (map_option wide_is_slash (idx mem First 1))
                                          (or_else (map_option (\<lambda>c. c = 0x3F) (idx mem First 2))
                                                   (map_option (\<lambda>c. c = 0x2E) (idx mem First 2))))
                                (and_then (map_option (\<lambda>c. c = 0x3F) (idx mem First 1))
                                          (map_option (\<lambda>c. c = 0x3F) (idx mem First 2))))));
            if device then Some (First + 3)
            else do {
              unc \<leftarrow>
                and_then (Some (ptr_diff Last First \<ge> 3))
               (and_then (map_option wide_is_slash (idx mem First 1))
                         (map_option (\<lambda>c. \<not> wide_is_slash c) (idx mem First 2)));
              if unc then std_find_if wide_is_slash mem (First + 3) Last
              else Some First
            }
          }
        }
      })"

definition wide_root_name :: "wchar list \<Rightarrow> string_view \<Rightarrow> string_view option" where
  "wide_root_name mem path =
     (let data = sv_data path; tail = data + sv_size path
      in do {
        e \<leftarrow> wide_find_root_name_end mem data tail;
        Some \<lparr>sv_data = data, sv_size = size_t_cast (ptr_diff e data)\<rparr>
      })"

definition wide_find_relative_path :: "wchar list \<Rightarrow> nat \<Rightarrow> nat \<Rightarrow> nat option" where
  "wide_find_relative_path mem First Last =
     do {
       e \<leftarrow> wide_find_root_name_end mem First Last;
       std_find_if_not wide_is_slash mem e Last
     }"

definition wide_relative_path :: "wchar list \<Rightarrow> string_view \<Rightarrow> string_view option" where
  "wide_relative_path mem path =
     (let data = sv_data path; tail = data + sv_size path
      in do {
        relative_path \<leftarrow> wide_find_relative_path mem data tail;
        Some \<lparr>sv_data = relative_path, sv_size = size_t_cast (ptr_diff tail relative_path)\<rparr>
      })"

text \<open>The first loop of \<^verbatim>\<open>parent_path\<close> (and the loop of \<^verbatim>\<open>find_filename\<close>, which is
  the same text): retreat while the unit before the tail is not a slash.\<close>

function wide_retreat_filename :: "wchar list \<Rightarrow> nat \<Rightarrow> nat \<Rightarrow> nat option" where
  "wide_retreat_filename mem rel_path tail =
     (if rel_path \<noteq> tail
      then (case idx mem tail (- 1) of
              None \<Rightarrow> None
            | Some c \<Rightarrow>
                if \<not> wide_is_slash c then wide_retreat_filename mem rel_path (tail - 1)
                else Some tail)
      else Some tail)"
  by pat_completeness auto
termination
  by (relation "measure (\<lambda>(mem, rel_path, tail). tail)")
     (auto simp: idx_def Let_def split: if_splits)

declare wide_retreat_filename.simps [simp del]

text \<open>The second loop of \<^verbatim>\<open>parent_path\<close>: retreat while the unit before the tail is a
  slash.\<close>

function wide_retreat_slashes :: "wchar list \<Rightarrow> nat \<Rightarrow> nat \<Rightarrow> nat option" where
  "wide_retreat_slashes mem rel_path tail =
     (if rel_path \<noteq> tail
      then (case idx mem tail (- 1) of
              None \<Rightarrow> None
            | Some c \<Rightarrow>
                if wide_is_slash c then wide_retreat_slashes mem rel_path (tail - 1)
                else Some tail)
      else Some tail)"
  by pat_completeness auto
termination
  by (relation "measure (\<lambda>(mem, rel_path, tail). tail)")
     (auto simp: idx_def Let_def split: if_splits)

declare wide_retreat_slashes.simps [simp del]

definition wide_parent_path :: "wchar list \<Rightarrow> string_view \<Rightarrow> string_view option" where
  "wide_parent_path mem path =
     (let data = sv_data path; tail = data + sv_size path
      in do {
        rel_path \<leftarrow> wide_find_relative_path mem data tail;
        tail1 \<leftarrow> wide_retreat_filename mem rel_path tail;
        tail2 \<leftarrow> wide_retreat_slashes mem rel_path tail1;
        Some \<lparr>sv_data = data, sv_size = size_t_cast (ptr_diff tail2 data)\<rparr>
      })"

definition wide_find_filename :: "wchar list \<Rightarrow> nat \<Rightarrow> nat \<Rightarrow> nat option" where
  "wide_find_filename mem path path_end =
     do {
       relative_path \<leftarrow> wide_find_relative_path mem path path_end;
       wide_retreat_filename mem relative_path path_end
     }"

definition wide_filename :: "wchar list \<Rightarrow> string_view \<Rightarrow> string_view option" where
  "wide_filename mem path =
     (let data = sv_data path; tail = data + sv_size path
      in do {
        f \<leftarrow> wide_find_filename mem data tail;
        Some \<lparr>sv_data = f, sv_size = size_t_cast (ptr_diff tail f)\<rparr>
      })"

text \<open>The loop of \<^verbatim>\<open>find_extension\<close>: \<^verbatim>\<open>while (filename != --extension)\<close>. The
  pointer is decremented before the test; decrementing it below the storage is \<open>None\<close>.\<close>

function wide_find_extension_loop :: "wchar list \<Rightarrow> nat \<Rightarrow> nat \<Rightarrow> nat \<Rightarrow> nat option" where
  "wide_find_extension_loop mem filename extension additional =
     (if extension = 0 then None
      else if filename \<noteq> extension - 1
        then (case idx mem (extension - 1) 0 of
                None \<Rightarrow> None
              | Some c \<Rightarrow>
                  if c = 0x2E then Some (extension - 1)
                  else wide_find_extension_loop mem filename (extension - 1) additional)
        else Some additional)"
  by pat_completeness auto
termination
  by (relation "measure (\<lambda>(mem, filename, extension, additional). extension)") auto

declare wide_find_extension_loop.simps [simp del]

text \<open>\<^verbatim>\<open>find_extension\<close>. The comparison \<^verbatim>\<open>filename == extension - 1\<close> is one of
  addresses; \<^verbatim>\<open>--extension\<close> on the start of the storage is \<open>None\<close>.\<close>

definition wide_find_extension :: "wchar list \<Rightarrow> nat \<Rightarrow> nat \<Rightarrow> nat option" where
  "wide_find_extension mem filename additional =
     (if filename = additional then Some additional
      else if additional = 0 then None
      else let extension = additional - 1
        in if filename = extension then Some additional
           else do {
             c \<leftarrow> idx mem extension 0;
             if c = 0x2E
             then do {
               dotdot \<leftarrow> and_then (Some (int filename = int extension - 1))
                                  (map_option (\<lambda>c. c = 0x2E) (idx mem extension (- 1)));
               if dotdot then Some additional else Some extension
             }
             else wide_find_extension_loop mem filename extension additional
           })"

definition wide_stem :: "wchar list \<Rightarrow> string_view \<Rightarrow> string_view option" where
  "wide_stem mem path =
     (let data = sv_data path; tail = data + sv_size path
      in do {
        fname \<leftarrow> wide_find_filename mem data tail;
        ads \<leftarrow> std_find mem fname tail 0x3A;
        exts \<leftarrow> wide_find_extension mem fname ads;
        Some \<lparr>sv_data = fname, sv_size = size_t_cast (ptr_diff exts fname)\<rparr>
      })"

definition wide_extension :: "wchar list \<Rightarrow> string_view \<Rightarrow> string_view option" where
  "wide_extension mem path =
     (let data = sv_data path; tail = data + sv_size path
      in do {
        fname \<leftarrow> wide_find_filename mem data tail;
        addtional \<leftarrow> std_find mem fname tail 0x3A;
        exts \<leftarrow> wide_find_extension mem fname addtional;
        Some \<lparr>sv_data = exts, sv_size = size_t_cast (ptr_diff addtional exts)\<rparr>
      })"

section \<open>The grammar as the specification words it\<close>

text \<open>An ASCII letter: A-Z or a-z.\<close>

definition ascii_letter :: "'a::len word \<Rightarrow> bool" where
  "ascii_letter c = ((0x41 \<le> c \<and> c \<le> 0x5A) \<or> (0x61 \<le> c \<and> c \<le> 0x7A))"

text \<open>The three units of a device namespace prefix: two slashes and \<open>?\<close> or \<open>.\<close>, or a
  slash and two \<open>?\<close>.\<close>

definition device_prefix :: "char8 list \<Rightarrow> bool" where
  "device_prefix t =
     (case t of
        [a, b, c] \<Rightarrow> utf8_is_slash a \<and>
                     ((utf8_is_slash b \<and> (c = 0x3F \<or> c = 0x2E)) \<or> (b = 0x3F \<and> c = 0x3F))
      | _ \<Rightarrow> False)"

text \<open>The end of the root-name of a path \<open>s\<close>, as an offset: the six steps of the decision
  order, the first match winning.\<close>

definition spec_root_name_end :: "char8 list \<Rightarrow> nat" where
  "spec_root_name_end s =
     (if length s < 2 then 0
      else if ascii_letter (s ! 0) \<and> s ! 1 = 0x3A then 2
      else if \<not> utf8_is_slash (s ! 0) then 0
      else if device_prefix (take 3 s) \<and> 3 < length s \<and> utf8_is_slash (s ! 3)
              \<and> (length s = 4 \<or> \<not> utf8_is_slash (s ! 4)) then 3
      else if utf8_is_slash (s ! 0) \<and> utf8_is_slash (s ! 1) \<and> 2 < length s \<and> \<not> utf8_is_slash (s ! 2)
        then 3 + length (takeWhile (\<lambda>c. \<not> utf8_is_slash c) (drop 3 s))
      else 0)"

text \<open>The start of the relative-path: the first unit at or after the end of the root-name
  that is not a slash, or the length of the path when only slashes remain.\<close>

definition spec_relative_start :: "char8 list \<Rightarrow> nat" where
  "spec_relative_start s =
     (let e = spec_root_name_end s in e + length (takeWhile utf8_is_slash (drop e s)))"

text \<open>The start of the filename: as far back from the end as the units are not slashes, but
  not before the start of the relative-path.\<close>

definition spec_filename_start :: "char8 list \<Rightarrow> nat" where
  "spec_filename_start s =
     (let r = spec_relative_start s
      in length s - length (takeWhile (\<lambda>c. \<not> utf8_is_slash c) (rev (drop r s))))"

text \<open>The end of the parent-path: the final filename stripped, then every slash before it,
  never going below the start of the relative-path.\<close>

definition spec_parent_end :: "char8 list \<Rightarrow> nat" where
  "spec_parent_end s =
     (let r = spec_relative_start s;
          t = length s - length (takeWhile (\<lambda>c. \<not> utf8_is_slash c) (rev (drop r s)))
      in t - length (takeWhile utf8_is_slash (rev (take (t - r) (drop r s)))))"

text \<open>Where the extension of a filename \<open>f\<close> starts: the rules of the specification in
  their order. The scan for a dot runs over \<open>tl f\<close>, so it never sees position 0.\<close>

definition spec_extension_start :: "char8 list \<Rightarrow> nat" where
  "spec_extension_start f =
     (if f = [] then 0
      else if length f = 1 then 1
      else if last f = 0x2E then (if f = [0x2E, 0x2E] then 2 else length f - 1)
      else (let k = length (takeWhile (\<lambda>c. c \<noteq> 0x2E) (rev (tl f)))
            in if k = length (tl f) then length f else length f - 1 - k))"

text \<open>The filename without its alternate-data-stream suffix: the units before its first
  colon.\<close>

definition spec_stem_part :: "char8 list \<Rightarrow> char8 list" where
  "spec_stem_part s = takeWhile (\<lambda>c. c \<noteq> 0x3A) (drop (spec_filename_start s) s)"

text \<open>A filename with its alternate-data-stream suffix removed, and that suffix: the units
  before the first colon, and those from it on.\<close>

definition without_ads :: "char8 list \<Rightarrow> char8 list" where
  "without_ads f = takeWhile (\<lambda>c. c \<noteq> 0x3A) f"

definition ads_suffix :: "char8 list \<Rightarrow> char8 list" where
  "ads_suffix f = dropWhile (\<lambda>c. c \<noteq> 0x3A) f"

text \<open>A narrow code-unit sequence at the width of \<^verbatim>\<open>wchar_t\<close>: every unit keeps its value.\<close>

definition widen :: "char8 list \<Rightarrow> wchar list" where
  "widen mem = map ucast mem"

text \<open>A path that starts with a drive letter and a colon.\<close>

definition drive_prefix :: "char8 list \<Rightarrow> bool" where
  "drive_prefix s = (2 \<le> length s \<and> ascii_letter (s ! 0) \<and> s ! 1 = 0x3A)"

section \<open>Basic facts about reads, spans and the standard algorithms\<close>

lemma and_then_simps:
  "and_then (Some True) b = b"
  "and_then (Some False) b = Some False"
  "and_then (Some x) (Some y) = Some (x \<and> y)"
  "and_then None b = None"
  by (simp_all add: and_then_def)

lemma or_else_simps:
  "or_else (Some True) b = Some True"
  "or_else (Some False) b = b"
  "or_else (Some x) (Some y) = Some (x \<or> y)"
  "or_else None b = None"
  by (simp_all add: or_else_def)

lemma length_span: "Last \<le> length mem \<Longrightarrow> length (span mem First Last) = Last - First"
  by (simp add: span_def)

lemma span_nth: "i < Last - First \<Longrightarrow> Last \<le> length mem \<Longrightarrow> span mem First Last ! i = mem ! (First + i)"
  by (simp add: span_def)

lemma idx_nat: "First + i < length mem \<Longrightarrow> idx mem First (int i) = Some (mem ! (First + i))"
  by (simp add: idx_def Let_def nat_add_distrib flip: of_nat_add)

lemma idx_0: "First < length mem \<Longrightarrow> idx mem First 0 = Some (mem ! First)"
  using idx_nat [of First 0 mem] by simp

lemma idx_numeral: "First + numeral k < length mem \<Longrightarrow> idx mem First (numeral k) = Some (mem ! (First + numeral k))"
  using idx_nat [of First "numeral k" mem] by simp

lemma idx_1: "First + 1 < length mem \<Longrightarrow> idx mem First 1 = Some (mem ! (First + 1))"
  using idx_nat [of First 1 mem] by simp

lemma idx_prev: "0 < p \<Longrightarrow> p \<le> length mem \<Longrightarrow> idx mem p (- 1) = Some (mem ! (p - 1))"
  by (auto simp add: idx_def Let_def nat_diff_distrib intro!: arg_cong [where f = "(!) mem"])

lemma span_Cons:
  "First < Last \<Longrightarrow> Last \<le> length mem \<Longrightarrow> span mem First Last = mem ! First # span mem (Suc First) Last"
proof -
  assume a: "First < Last" "Last \<le> length mem"
  then obtain n where n: "Last - First = Suc n" by (cases "Last - First") auto
  then have n': "Last - Suc First = n" by simp
  have "drop First mem = mem ! First # drop (Suc First) mem"
    using a by (simp add: Cons_nth_drop_Suc)
  then show ?thesis unfolding span_def n n' by simp
qed

lemma span_snoc:
  "First < Last \<Longrightarrow> Last \<le> length mem \<Longrightarrow> span mem First Last = span mem First (Last - 1) @ [mem ! (Last - 1)]"
proof -
  assume a: "First < Last" "Last \<le> length mem"
  then obtain n where n: "Last - First = Suc n" by (cases "Last - First") auto
  have "take (Suc n) (drop First mem) = take n (drop First mem) @ [drop First mem ! n]"
    using a n by (intro take_Suc_conv_app_nth) simp
  moreover have "First + n = Last - 1" "Last - 1 - First = n" using n by auto
  ultimately show ?thesis using a n by (simp add: span_def)
qed

lemma span_empty [simp]: "span mem p p = []"
  by (simp add: span_def)

lemma std_find_if_span:
  "First \<le> Last \<Longrightarrow> Last \<le> length mem \<Longrightarrow>
   std_find_if pred mem First Last = Some (First + length (takeWhile (\<lambda>c. \<not> pred c) (span mem First Last)))"
proof (induction pred mem First Last rule: std_find_if.induct)
  case (1 pred mem First Last)
  show ?case
  proof (cases "First = Last")
    case True
    then show ?thesis by (subst std_find_if.simps) simp
  next
    case False
    with 1 have lt: "First < Last" "First < length mem" by auto
    show ?thesis
    proof (cases "pred (mem ! First)")
      case True
      then show ?thesis using lt 1(3) by (subst std_find_if.simps) (simp add: span_Cons)
    next
      case False
      have "std_find_if pred mem (First + 1) Last =
            Some (First + 1 + length (takeWhile (\<lambda>c. \<not> pred c) (span mem (First + 1) Last)))"
        using 1 lt False by (intro "1.IH") auto
      then show ?thesis using lt False 1(3) by (subst std_find_if.simps) (simp add: span_Cons)
    qed
  qed
qed

lemma utf8_retreat_filename_span:
  "rel_path \<le> tail \<Longrightarrow> tail \<le> length mem \<Longrightarrow>
   utf8_retreat_filename mem rel_path tail =
     Some (tail - length (takeWhile (\<lambda>c. \<not> utf8_is_slash c) (rev (span mem rel_path tail))))"
proof (induction mem rel_path tail rule: utf8_retreat_filename.induct)
  case (1 mem rel_path tail)
  show ?case
  proof (cases "rel_path = tail")
    case True
    then show ?thesis by (subst utf8_retreat_filename.simps) simp
  next
    case False
    with 1 have lt: "rel_path < tail" "0 < tail" by auto
    have rd: "idx mem tail (- 1) = Some (mem ! (tail - 1))" using lt 1 by (simp add: idx_prev)
    show ?thesis
    proof (cases "utf8_is_slash (mem ! (tail - 1))")
      case True
      then show ?thesis using lt 1(3) rd by (subst utf8_retreat_filename.simps) (simp add: span_snoc)
    next
      case F: False
      have "utf8_retreat_filename mem rel_path (tail - 1) =
            Some (tail - 1 - length (takeWhile (\<lambda>c. \<not> utf8_is_slash c) (rev (span mem rel_path (tail - 1)))))"
        using 1 lt F rd False by (intro "1.IH") auto
      moreover have "length (takeWhile (\<lambda>c. \<not> utf8_is_slash c) (rev (span mem rel_path (tail - 1)))) \<le> tail - 1 - rel_path"
        using length_takeWhile_le [of _ "rev (span mem rel_path (tail - 1))"] 1(3) by (simp add: length_span)
      ultimately show ?thesis using lt F 1(3) rd
        by (subst utf8_retreat_filename.simps) (simp add: span_snoc)
    qed
  qed
qed

lemma utf8_retreat_slashes_span:
  "rel_path \<le> tail \<Longrightarrow> tail \<le> length mem \<Longrightarrow>
   utf8_retreat_slashes mem rel_path tail =
     Some (tail - length (takeWhile utf8_is_slash (rev (span mem rel_path tail))))"
proof (induction mem rel_path tail rule: utf8_retreat_slashes.induct)
  case (1 mem rel_path tail)
  show ?case
  proof (cases "rel_path = tail")
    case True
    then show ?thesis by (subst utf8_retreat_slashes.simps) simp
  next
    case False
    with 1 have lt: "rel_path < tail" "0 < tail" by auto
    have rd: "idx mem tail (- 1) = Some (mem ! (tail - 1))" using lt 1 by (simp add: idx_prev)
    show ?thesis
    proof (cases "utf8_is_slash (mem ! (tail - 1))")
      case F: False
      then show ?thesis using lt 1(3) rd by (subst utf8_retreat_slashes.simps) (simp add: span_snoc)
    next
      case True
      have "utf8_retreat_slashes mem rel_path (tail - 1) =
            Some (tail - 1 - length (takeWhile utf8_is_slash (rev (span mem rel_path (tail - 1)))))"
        using 1 lt True rd False by (intro "1.IH") auto
      moreover have "length (takeWhile utf8_is_slash (rev (span mem rel_path (tail - 1)))) \<le> tail - 1 - rel_path"
        using length_takeWhile_le [of _ "rev (span mem rel_path (tail - 1))"] 1(3) by (simp add: length_span)
      ultimately show ?thesis using lt True 1(3) rd
        by (subst utf8_retreat_slashes.simps) (simp add: span_snoc)
    qed
  qed
qed

lemma ptr_diff_nat:
  assumes "First \<le> Last"
  shows "ptr_diff Last First < numeral k \<longleftrightarrow> Last - First < numeral k"
    and "numeral k \<le> ptr_diff Last First \<longleftrightarrow> numeral k \<le> Last - First"
    and "ptr_diff Last First = numeral k \<longleftrightarrow> Last - First = numeral k"
proof -
  have "ptr_diff Last First = int (Last - First)" using assms by (simp add: ptr_diff_def)
  moreover have "(numeral k :: int) = int (numeral k)" by simp
  ultimately show "ptr_diff Last First < numeral k \<longleftrightarrow> Last - First < numeral k"
    and "numeral k \<le> ptr_diff Last First \<longleftrightarrow> numeral k \<le> Last - First"
    and "ptr_diff Last First = numeral k \<longleftrightarrow> Last - First = numeral k"
    by (simp_all only: of_nat_less_iff of_nat_le_iff of_nat_eq_iff)
qed

lemma nat_or_32: "(n::nat) OR 32 = (if odd (n div 32) then n else n + 32)"
proof -
  have "n OR 32 = set_bit 5 n" by (simp add: set_bit_eq_or)
  also have "\<dots> = n + of_bool (\<not> bit n 5) * 2 ^ 5" by (rule set_bit_eq)
  also have "\<dots> = (if odd (n div 32) then n else n + 32)" by (simp add: bit_iff_odd)
  finally show ?thesis .
qed

lemma nat_letter_iff:
  fixes n :: nat
  shows "(97 \<le> (n OR 32) \<and> (n OR 32) < 123) \<longleftrightarrow> (65 \<le> n \<and> n \<le> 90) \<or> (97 \<le> n \<and> n \<le> 122)"
proof -
  have d2: "n div 32 = 2" if "64 \<le> n" "n < 96" using that by linarith
  have d3: "n div 32 = 3" if "96 \<le> n" "n < 128" using that by linarith
  show ?thesis
  proof (cases "odd (n div 32)")
    case True
    then have "n OR 32 = n" by (simp add: nat_or_32)
    moreover have "\<not> (65 \<le> n \<and> n \<le> 90)" using True d2 by fastforce
    ultimately show ?thesis by auto
  next
    case False
    then have "n OR 32 = n + 32" by (simp add: nat_or_32)
    moreover have "\<not> (97 \<le> n \<and> n \<le> 122)" using False d3 by fastforce
    ultimately show ?thesis by auto
  qed
qed

lemma utf8_lowercase_letter:
  "utf8_ascii_lowercase c - 0x61 < 26 \<longleftrightarrow> ascii_letter c"
proof -
  let ?m = "unat (c OR 0x20)"
  have o: "?m = unat c OR 32" by (simp add: unsigned_or_eq)
  have o2: "?m < 256" using unsigned_less [of "c OR 0x20"] by simp
  have s: "unat ((c OR 0x20) - 0x61) = (if 97 \<le> ?m then ?m - 97 else ?m + 256 - 97)"
    by (simp add: unat_sub_if')
  have "(c OR 0x20) - 0x61 < 26 \<longleftrightarrow> 97 \<le> ?m \<and> ?m < 123"
    unfolding word_less_nat_alt s using o2 by auto
  also have "\<dots> \<longleftrightarrow> (65 \<le> unat c \<and> unat c \<le> 90) \<or> (97 \<le> unat c \<and> unat c \<le> 122)"
    unfolding o by (rule nat_letter_iff)
  also have "\<dots> \<longleftrightarrow> (0x41 \<le> c \<and> c \<le> 0x5A) \<or> (0x61 \<le> c \<and> c \<le> 0x7A)"
    by (simp add: word_le_nat_alt)
  finally show ?thesis by (simp add: utf8_ascii_lowercase_def ascii_letter_def)
qed

lemma utf8_has_drive_letter_prefix_span:
  assumes "First \<le> Last" "Last \<le> length mem"
  shows "utf8_has_drive_letter_prefix mem First Last =
           Some (2 \<le> length (span mem First Last) \<and> ascii_letter (span mem First Last ! 0)
                 \<and> span mem First Last ! 1 = 0x3A)"
proof (cases "2 \<le> Last - First")
  case True
  then show ?thesis using assms
    by (simp add: utf8_has_drive_letter_prefix_def utf8_is_drive_prefix_def ptr_diff_nat
        and_then_simps length_span span_nth utf8_lowercase_letter)
next
  case False
  then show ?thesis using assms
    by (simp add: utf8_has_drive_letter_prefix_def ptr_diff_nat and_then_simps length_span)
qed

lemma take_3_nth: "3 \<le> length s \<Longrightarrow> take 3 s = [s ! 0, s ! 1, s ! 2]"
proof -
  assume "3 \<le> length s"
  then obtain a b c r where "s = a # b # c # r"
    by (cases s; cases "tl s"; cases "tl (tl s)") auto
  then show ?thesis by simp
qed

lemma utf8_find_root_name_end_span:
  assumes "First \<le> Last" "Last \<le> length mem"
  shows "utf8_find_root_name_end mem First Last = Some (First + spec_root_name_end (span mem First Last))"
proof -
  let ?s = "span mem First Last"
  have len: "length ?s = Last - First" using assms by (simp add: length_span)
  have nth: "\<And>i. i < Last - First \<Longrightarrow> mem ! (First + i) = ?s ! i" using assms by (simp add: span_nth)
  show ?thesis
  proof (cases "Last - First < 2")
    case True
    then show ?thesis using assms
      by (simp add: utf8_find_root_name_end_def ptr_diff_nat spec_root_name_end_def len)
  next
    case False
    have i0: "idx mem First 0 = Some (?s ! 0)"
      using False assms nth [of 0] by (simp add: idx_0)
    have i1: "idx mem First 1 = Some (?s ! 1)"
      using False assms nth [of 1] by (simp add: idx_1)
    have i2: "idx mem First 2 = Some (?s ! 2)" if "3 \<le> Last - First"
      using that assms nth [of 2] by (simp add: idx_numeral)
    have i3: "idx mem First 3 = Some (?s ! 3)" if "4 \<le> Last - First"
      using that assms nth [of 3] by (simp add: idx_numeral)
    have i4: "idx mem First 4 = Some (?s ! 4)" if "5 \<le> Last - First"
      using that assms nth [of 4] by (simp add: idx_numeral)
    have t3: "take 3 ?s = [?s ! 0, ?s ! 1, ?s ! 2]" if "3 \<le> Last - First"
      using that len by (intro take_3_nth) simp
    have fi: "std_find_if utf8_is_slash mem (First + 3) Last =
              Some (First + (3 + length (takeWhile (\<lambda>c. \<not> utf8_is_slash c) (drop 3 ?s))))"
      if "3 \<le> Last - First"
    proof -
      have "span mem (First + 3) Last = drop 3 ?s"
        by (simp add: span_def drop_take add.commute)
      then show ?thesis
        using std_find_if_span [of "First + 3" Last mem utf8_is_slash] that assms by simp
    qed
    have dev: "and_then (Some (ptr_diff Last First \<ge> 4))
             (and_then (map_option utf8_is_slash (idx mem First 3))
             (and_then (or_else (Some (ptr_diff Last First = 4))
                                (map_option (\<lambda>c. \<not> utf8_is_slash c) (idx mem First 4)))
                       (or_else (and_then (map_option utf8_is_slash (idx mem First 1))
                                          (or_else (map_option (\<lambda>c. c = 0x3F) (idx mem First 2))
                                                   (map_option (\<lambda>c. c = 0x2E) (idx mem First 2))))
                                (and_then (map_option (\<lambda>c. c = 0x3F) (idx mem First 1))
                                          (map_option (\<lambda>c. c = 0x3F) (idx mem First 2))))))
          = Some (4 \<le> Last - First \<and> utf8_is_slash (?s ! 3) \<and> (Last - First = 4 \<or> \<not> utf8_is_slash (?s ! 4))
                  \<and> ((utf8_is_slash (?s ! 1) \<and> (?s ! 2 = 0x3F \<or> ?s ! 2 = 0x2E)) \<or> (?s ! 1 = 0x3F \<and> ?s ! 2 = 0x3F)))"
    proof -
      consider "Last - First < 4" | "Last - First = 4" | "5 \<le> Last - First" by linarith
      then show ?thesis
      proof cases
        case 1
        then show ?thesis using assms by (simp add: ptr_diff_nat and_then_simps)
      next
        case 2
        then show ?thesis using assms i1 i2 i3
          by (simp add: ptr_diff_nat and_then_simps or_else_simps)
      next
        case 3
        then show ?thesis using assms i1 i2 i3 i4
          by (simp add: ptr_diff_nat and_then_simps or_else_simps)
      qed
    qed
    have unc: "and_then (Some (ptr_diff Last First \<ge> 3))
               (and_then (map_option utf8_is_slash (idx mem First 1))
                         (map_option (\<lambda>c. \<not> utf8_is_slash c) (idx mem First 2)))
          = Some (3 \<le> Last - First \<and> utf8_is_slash (?s ! 1) \<and> \<not> utf8_is_slash (?s ! 2))"
    proof (cases "3 \<le> Last - First")
      case True
      then show ?thesis using assms i1 i2 by (simp add: ptr_diff_nat and_then_simps)
    next
      case False
      then show ?thesis using assms by (simp add: ptr_diff_nat and_then_simps)
    qed
    have drv: "utf8_has_drive_letter_prefix mem First Last = Some (ascii_letter (?s ! 0) \<and> ?s ! 1 = 0x3A)"
      using False assms len by (simp add: utf8_has_drive_letter_prefix_span)
    have code: "utf8_find_root_name_end mem First Last =
       (if ascii_letter (?s ! 0) \<and> ?s ! 1 = 0x3A then Some (First + 2)
        else if \<not> utf8_is_slash (?s ! 0) then Some First
        else if 4 \<le> Last - First \<and> utf8_is_slash (?s ! 3) \<and> (Last - First = 4 \<or> \<not> utf8_is_slash (?s ! 4))
                  \<and> ((utf8_is_slash (?s ! 1) \<and> (?s ! 2 = 0x3F \<or> ?s ! 2 = 0x2E)) \<or> (?s ! 1 = 0x3F \<and> ?s ! 2 = 0x3F))
          then Some (First + 3)
        else if 3 \<le> Last - First \<and> utf8_is_slash (?s ! 1) \<and> \<not> utf8_is_slash (?s ! 2)
          then std_find_if utf8_is_slash mem (First + 3) Last
        else Some First)"
    proof -
      have nlt: "\<not> ptr_diff Last First < 2" using False assms by (simp add: ptr_diff_nat)
      show ?thesis
        unfolding utf8_find_root_name_end_def dev unc drv i0
        by (simp only: nlt if_False Option.bind.simps)
    qed
    have spec: "spec_root_name_end ?s =
       (if ascii_letter (?s ! 0) \<and> ?s ! 1 = 0x3A then 2
        else if \<not> utf8_is_slash (?s ! 0) then 0
        else if 4 \<le> Last - First \<and> utf8_is_slash (?s ! 3) \<and> (Last - First = 4 \<or> \<not> utf8_is_slash (?s ! 4))
                  \<and> ((utf8_is_slash (?s ! 1) \<and> (?s ! 2 = 0x3F \<or> ?s ! 2 = 0x2E)) \<or> (?s ! 1 = 0x3F \<and> ?s ! 2 = 0x3F))
          then 3
        else if 3 \<le> Last - First \<and> utf8_is_slash (?s ! 1) \<and> \<not> utf8_is_slash (?s ! 2)
          then 3 + length (takeWhile (\<lambda>c. \<not> utf8_is_slash c) (drop 3 ?s))
        else 0)"
    proof (cases "3 \<le> Last - First")
      case True
      show ?thesis unfolding spec_root_name_end_def len t3 [OF True] device_prefix_def
        using False True by auto
    next
      case F3: False
      then have "take 3 ?s = [?s ! 0, ?s ! 1]" using False len
        by (cases ?s; cases "tl ?s"; cases "tl (tl ?s)") auto
      then show ?thesis unfolding spec_root_name_end_def len device_prefix_def
        using False F3 by auto
    qed
    show ?thesis unfolding code spec using fi by auto
  qed
qed

lemma size_t_cast_diff: "b \<le> a \<Longrightarrow> size_t_cast (ptr_diff a b) = a - b"
  by (simp add: size_t_cast_def ptr_diff_def of_nat_diff nat_diff_distrib)

section \<open>The code computes what the grammar says\<close>

lemma spec_root_name_end_le: "spec_root_name_end s \<le> length s"
proof -
  have "length (takeWhile (\<lambda>c. \<not> utf8_is_slash c) (drop 3 s)) \<le> length s - 3"
    using length_takeWhile_le [of _ "drop 3 s"] by simp
  then show ?thesis by (auto simp: spec_root_name_end_def)
qed

lemma spec_relative_start_bounds:
  "spec_root_name_end s \<le> spec_relative_start s" "spec_relative_start s \<le> length s"
proof -
  have "length (takeWhile utf8_is_slash (drop (spec_root_name_end s) s)) \<le> length s - spec_root_name_end s"
    using length_takeWhile_le [of _ "drop (spec_root_name_end s) s"] by simp
  then show "spec_root_name_end s \<le> spec_relative_start s" "spec_relative_start s \<le> length s"
    using spec_root_name_end_le [of s] by (auto simp: spec_relative_start_def Let_def)
qed

lemma spec_filename_start_bounds:
  "spec_relative_start s \<le> spec_filename_start s" "spec_filename_start s \<le> length s"
proof -
  have "length (takeWhile (\<lambda>c. \<not> utf8_is_slash c) (rev (drop (spec_relative_start s) s))) \<le> length s - spec_relative_start s"
    using length_takeWhile_le [of _ "rev (drop (spec_relative_start s) s)"] by simp
  then show "spec_relative_start s \<le> spec_filename_start s" "spec_filename_start s \<le> length s"
    using spec_relative_start_bounds [of s] by (auto simp: spec_filename_start_def Let_def)
qed

lemma spec_parent_end_bounds:
  "spec_relative_start s \<le> spec_parent_end s" "spec_parent_end s \<le> spec_filename_start s"
proof -
  let ?r = "spec_relative_start s" and ?t = "spec_filename_start s"
  have "length (takeWhile utf8_is_slash (rev (take (?t - ?r) (drop ?r s)))) \<le> ?t - ?r"
    using length_takeWhile_le [of _ "rev (take (?t - ?r) (drop ?r s))"] by simp
  then show "?r \<le> spec_parent_end s" "spec_parent_end s \<le> ?t"
    using spec_filename_start_bounds [of s]
    by (auto simp: spec_parent_end_def spec_filename_start_def Let_def)
qed

lemma span_sub:
  assumes "a \<le> b" "b \<le> Last - First" "Last \<le> length mem"
  shows "span mem (First + a) (First + b) = take (b - a) (drop a (span mem First Last))"
  using assms by (simp add: span_def drop_take add.commute min_def)

lemma span_drop:
  assumes "a \<le> Last - First"
  shows "span mem (First + a) Last = drop a (span mem First Last)"
  using assms by (simp add: span_def drop_take add.commute)

lemma utf8_find_relative_path_span:
  assumes "First \<le> Last" "Last \<le> length mem"
  shows "utf8_find_relative_path mem First Last = Some (First + spec_relative_start (span mem First Last))"
proof -
  let ?s = "span mem First Last"
  let ?e = "spec_root_name_end ?s"
  have e: "?e \<le> Last - First" using spec_root_name_end_le [of ?s] assms by (simp add: length_span)
  have "std_find_if_not utf8_is_slash mem (First + ?e) Last =
        Some (First + ?e + length (takeWhile utf8_is_slash (span mem (First + ?e) Last)))"
    unfolding std_find_if_not_def using e assms
    by (subst std_find_if_span) auto
  then show ?thesis using e assms
    by (simp add: utf8_find_relative_path_def utf8_find_root_name_end_span span_drop
        spec_relative_start_def Let_def)
qed

lemma utf8_find_filename_span:
  assumes "First \<le> Last" "Last \<le> length mem"
  shows "utf8_find_filename mem First Last = Some (First + spec_filename_start (span mem First Last))"
proof -
  let ?s = "span mem First Last"
  let ?r = "spec_relative_start ?s"
  have len: "length ?s = Last - First" using assms by (simp add: length_span)
  have r: "?r \<le> Last - First" using spec_relative_start_bounds(2) [of ?s] len by simp
  have k: "length (takeWhile (\<lambda>c. \<not> utf8_is_slash c) (rev (drop ?r ?s))) \<le> Last - First - ?r"
    using length_takeWhile_le [of _ "rev (drop ?r ?s)"] len by simp
  have "utf8_retreat_filename mem (First + ?r) Last =
        Some (Last - length (takeWhile (\<lambda>c. \<not> utf8_is_slash c) (rev (span mem (First + ?r) Last))))"
    using r assms by (intro utf8_retreat_filename_span) auto
  then show ?thesis using r k assms len
    by (simp add: utf8_find_filename_def utf8_find_relative_path_span span_drop
        spec_filename_start_def Let_def)
qed

lemma utf8_parent_path_span:
  assumes "First \<le> Last" "Last \<le> length mem"
  shows "utf8_parent_path mem \<lparr>sv_data = First, sv_size = Last - First\<rparr> =
           Some \<lparr>sv_data = First, sv_size = spec_parent_end (span mem First Last)\<rparr>"
proof -
  let ?s = "span mem First Last"
  let ?r = "spec_relative_start ?s"
  let ?t = "spec_filename_start ?s"
  let ?p = "spec_parent_end ?s"
  have len: "length ?s = Last - First" using assms by (simp add: length_span)
  have r: "?r \<le> ?t" "?t \<le> Last - First" using spec_filename_start_bounds [of ?s] len by simp_all
  have p: "?r \<le> ?p" "?p \<le> ?t" using spec_parent_end_bounds [of ?s] by simp_all
  have tl: "First + (Last - First) = Last" using assms by simp
  have rel: "utf8_find_relative_path mem First Last = Some (First + ?r)"
    using assms by (rule utf8_find_relative_path_span)
  have t1: "utf8_retreat_filename mem (First + ?r) Last = Some (First + ?t)"
    using utf8_find_filename_span [OF assms] rel by (simp add: utf8_find_filename_def)
  have "utf8_retreat_slashes mem (First + ?r) (First + ?t) =
        Some (First + ?t - length (takeWhile utf8_is_slash (rev (span mem (First + ?r) (First + ?t)))))"
    using r assms by (intro utf8_retreat_slashes_span) auto
  moreover have "span mem (First + ?r) (First + ?t) = take (?t - ?r) (drop ?r ?s)"
    using r assms by (intro span_sub) auto
  moreover have "?t - length (takeWhile utf8_is_slash (rev (take (?t - ?r) (drop ?r ?s)))) = ?p"
    by (simp add: spec_parent_end_def spec_filename_start_def Let_def)
  moreover have "length (takeWhile utf8_is_slash (rev (take (?t - ?r) (drop ?r ?s)))) \<le> ?t"
    using length_takeWhile_le [of utf8_is_slash "rev (take (?t - ?r) (drop ?r ?s))"] r len
    by simp
  ultimately have t2: "utf8_retreat_slashes mem (First + ?r) (First + ?t) = Some (First + ?p)"
    by simp
  show ?thesis
    by (simp add: utf8_parent_path_def Let_def tl rel t1 t2 size_t_cast_diff)
qed

lemma utf8_find_extension_loop_span:
  "filename < extension \<Longrightarrow> extension \<le> length mem \<Longrightarrow>
   utf8_find_extension_loop mem filename extension additional =
     Some (let seg = span mem (filename + 1) extension;
               k = length (takeWhile (\<lambda>c. c \<noteq> 0x2E) (rev seg))
           in if k = length seg then additional else extension - 1 - k)"
proof (induction mem filename extension additional rule: utf8_find_extension_loop.induct)
  case (1 mem filename extension additional)
  have pos: "extension \<noteq> 0" using 1(2) by simp
  show ?case
  proof (cases "filename = extension - 1")
    case True
    then have "span mem (filename + 1) extension = []" using pos by (simp add: span_def)
    then show ?thesis using True pos by (subst utf8_find_extension_loop.simps) simp
  next
    case False
    then have lt: "filename + 1 < extension" "filename < extension - 1" using 1(2) by auto
    have rd: "idx mem (extension - 1) 0 = Some (mem ! (extension - 1))"
      using 1(3) pos by (simp add: idx_0)
    have sn: "span mem (filename + 1) extension =
              span mem (filename + 1) (extension - 1) @ [mem ! (extension - 1)]"
      using lt 1(3) by (intro span_snoc) auto
    show ?thesis
    proof (cases "mem ! (extension - 1) = 0x2E")
      case True
      then show ?thesis using False pos rd sn
        by (subst utf8_find_extension_loop.simps) (simp add: Let_def)
    next
      case nd: False
      have ih: "utf8_find_extension_loop mem filename (extension - 1) additional =
        Some (let seg = span mem (filename + 1) (extension - 1);
               k = length (takeWhile (\<lambda>c. c \<noteq> 0x2E) (rev seg))
           in if k = length seg then additional else extension - 1 - 1 - k)"
        using pos False rd nd lt 1(3) by (intro "1.IH") auto
      have "length (takeWhile (\<lambda>c. c \<noteq> 0x2E) (rev (span mem (filename + 1) (extension - 1))))
            \<le> length (span mem (filename + 1) (extension - 1))"
        using length_takeWhile_le [of _ "rev (span mem (filename + 1) (extension - 1))"] by simp
      then show ?thesis using False pos rd sn nd ih
        by (subst utf8_find_extension_loop.simps) (auto simp add: Let_def)
    qed
  qed
qed

lemma utf8_find_extension_span:
  assumes "filename \<le> additional" "additional \<le> length mem"
  shows "utf8_find_extension mem filename additional =
           Some (filename + spec_extension_start (span mem filename additional))"
proof -
  let ?f = "span mem filename additional"
  have len: "length ?f = additional - filename" using assms by (simp add: length_span)
  consider (e) "filename = additional" | (one) "additional = filename + 1" | (more) "filename + 1 < additional"
    using assms by linarith
  then show ?thesis
  proof cases
    case e
    then show ?thesis by (simp add: utf8_find_extension_def spec_extension_start_def)
  next
    case one
    then have "?f \<noteq> []" "length ?f = 1" using len by auto
    then show ?thesis using one by (simp add: utf8_find_extension_def spec_extension_start_def)
  next
    case more
    then have ne: "?f \<noteq> []" "length ?f \<noteq> 1" using len by auto
    have sn: "?f = span mem filename (additional - 1) @ [mem ! (additional - 1)]"
      using more assms by (intro span_snoc) auto
    then have lst: "last ?f = mem ! (additional - 1)" by simp
    have rd: "idx mem (additional - 1) 0 = Some (mem ! (additional - 1))"
      using more assms by (simp add: idx_0)
    have rd1: "idx mem (additional - 1) (- 1) = Some (mem ! (additional - 2))"
    proof -
      have "additional - 1 - 1 = additional - 2" by simp
      then show ?thesis using more assms idx_prev [of "additional - 1" mem] by simp
    qed
    have guards: "filename \<noteq> additional" "additional \<noteq> 0" "filename \<noteq> additional - 1"
      using more by auto
    have unf: "utf8_find_extension mem filename additional =
       (if mem ! (additional - 1) = 0x2E
        then do {
               dotdot \<leftarrow> and_then (Some (int filename = int (additional - 1) - 1))
                                  (Some (mem ! (additional - 2) = 0x2E));
               if dotdot then Some additional else Some (additional - 1)
             }
        else utf8_find_extension_loop mem filename (additional - 1) additional)"
      unfolding utf8_find_extension_def Let_def rd rd1
      by (simp only: guards if_False Option.bind.simps option.map)
    have spc: "spec_extension_start ?f =
       (if mem ! (additional - 1) = 0x2E then (if ?f = [0x2E, 0x2E] then 2 else length ?f - 1)
        else (let k = length (takeWhile (\<lambda>c. c \<noteq> 0x2E) (rev (tl ?f)))
            in if k = length (tl ?f) then length ?f else length ?f - 1 - k))"
      unfolding spec_extension_start_def lst by (simp only: ne if_False)
    show ?thesis
    proof (cases "mem ! (additional - 1) = 0x2E")
      case True
      show ?thesis
      proof (cases "filename + 2 = additional")
        case T2: True
        then have i: "int filename = int (additional - 1) - 1" by auto
        have n: "?f ! 0 = mem ! (filename + 0)" "?f ! 1 = mem ! (filename + 1)"
          using T2 assms by (simp_all add: span_nth)
        have l2: "length ?f = 2" using len T2 by simp
        then obtain a b where ab: "?f = [a, b]"
          by (cases ?f; cases "tl ?f") auto
        have eq: "additional - 2 = filename" "additional - 1 = filename + 1" using T2 by auto
        have "a = mem ! filename" "b = mem ! (filename + 1)" using n ab by simp_all
        then have dd: "?f = [0x2E, 0x2E] \<longleftrightarrow> mem ! (additional - 2) = 0x2E"
          using True ab eq by auto
        show ?thesis unfolding unf spc using True i dd l2 eq
          by (auto simp add: and_then_simps)
      next
        case F2: False
        then have i: "int filename \<noteq> int (additional - 1) - 1" using more by linarith
        have "length ?f \<noteq> 2" using len F2 more by simp
        then have dd: "?f \<noteq> [0x2E, 0x2E]" by auto
        show ?thesis unfolding unf spc using True i dd len more
          by (simp add: and_then_simps)
      qed
    next
      case False
      let ?seg = "span mem (filename + 1) (additional - 1)"
      have lp: "utf8_find_extension_loop mem filename (additional - 1) additional =
        Some (let seg = ?seg; k = length (takeWhile (\<lambda>c. c \<noteq> 0x2E) (rev seg))
           in if k = length seg then additional else additional - 1 - 1 - k)"
        using more assms by (intro utf8_find_extension_loop_span) auto
      have tl: "tl ?f = ?seg @ [mem ! (additional - 1)]"
      proof -
        have "?f = mem ! filename # span mem (Suc filename) additional"
          using more assms by (intro span_Cons) auto
        moreover have "span mem (Suc filename) additional = span mem (Suc filename) (additional - 1) @ [mem ! (additional - 1)]"
          using more assms by (intro span_snoc) auto
        ultimately show ?thesis by simp
      qed
      have lseg: "length ?seg = additional - 1 - (filename + 1)" using assms by (simp add: length_span)
      have k: "length (takeWhile (\<lambda>c. c \<noteq> 0x2E) (rev ?seg)) \<le> length ?seg"
        using length_takeWhile_le [of _ "rev ?seg"] by simp
      show ?thesis unfolding unf spc lp tl using False k lseg len more
        by (auto simp add: Let_def)
    qed
  qed
qed

lemma spec_extension_start_le: "spec_extension_start f \<le> length f"
  by (auto simp: spec_extension_start_def Let_def)

lemma length_spec_stem_part: "spec_filename_start s + length (spec_stem_part s) \<le> length s"
  using length_takeWhile_le [of "\<lambda>c. c \<noteq> 0x3A" "drop (spec_filename_start s) s"]
    spec_filename_start_bounds(2) [of s]
  by (simp add: spec_stem_part_def)

lemma utf8_stem_extension_parts:
  assumes "First \<le> Last" "Last \<le> length mem"
  defines "s \<equiv> span mem First Last"
  shows "utf8_find_filename mem First Last = Some (First + spec_filename_start s)"
    and "std_find mem (First + spec_filename_start s) Last 0x3A =
           Some (First + spec_filename_start s + length (spec_stem_part s))"
    and "utf8_find_extension mem (First + spec_filename_start s)
           (First + spec_filename_start s + length (spec_stem_part s)) =
           Some (First + spec_filename_start s + spec_extension_start (spec_stem_part s))"
proof -
  let ?fs = "spec_filename_start s"
  have len: "length s = Last - First" using assms by (simp add: length_span)
  have fs: "?fs \<le> Last - First" using spec_filename_start_bounds(2) [of s] len by simp
  have k: "?fs + length (spec_stem_part s) \<le> Last - First"
    using length_spec_stem_part [of s] len by simp
  show "utf8_find_filename mem First Last = Some (First + ?fs)"
    unfolding s_def using assms(1,2) by (rule utf8_find_filename_span)
  have dr: "span mem (First + ?fs) Last = drop ?fs s"
    unfolding s_def using fs by (intro span_drop) (simp add: s_def)
  show "std_find mem (First + ?fs) Last 0x3A = Some (First + ?fs + length (spec_stem_part s))"
    unfolding std_find_def spec_stem_part_def dr [symmetric]
    using fs assms(1,2) by (intro std_find_if_span) auto
  have "span mem (First + ?fs) (First + (?fs + length (spec_stem_part s))) =
        take (?fs + length (spec_stem_part s) - ?fs) (drop ?fs (span mem First Last))"
    using k assms(1,2) by (intro span_sub) auto
  then have sp: "span mem (First + ?fs) (First + ?fs + length (spec_stem_part s)) = spec_stem_part s"
    by (simp add: spec_stem_part_def s_def add.assoc flip: takeWhile_eq_take)
  have "utf8_find_extension mem (First + ?fs) (First + ?fs + length (spec_stem_part s)) =
        Some (First + ?fs + spec_extension_start (span mem (First + ?fs) (First + ?fs + length (spec_stem_part s))))"
    using k assms(1,2) by (intro utf8_find_extension_span) auto
  then show "utf8_find_extension mem (First + ?fs) (First + ?fs + length (spec_stem_part s)) =
        Some (First + ?fs + spec_extension_start (spec_stem_part s))"
    by (simp only: sp)
qed

lemma utf8_stem_span:
  assumes "First \<le> Last" "Last \<le> length mem"
  shows "utf8_stem mem \<lparr>sv_data = First, sv_size = Last - First\<rparr> =
           Some \<lparr>sv_data = First + spec_filename_start (span mem First Last),
                 sv_size = spec_extension_start (spec_stem_part (span mem First Last))\<rparr>"
  using assms utf8_stem_extension_parts [OF assms]
  by (simp add: utf8_stem_def Let_def size_t_cast_diff)

lemma utf8_extension_span:
  assumes "First \<le> Last" "Last \<le> length mem"
  shows "utf8_extension mem \<lparr>sv_data = First, sv_size = Last - First\<rparr> =
           Some \<lparr>sv_data = First + spec_filename_start (span mem First Last)
                             + spec_extension_start (spec_stem_part (span mem First Last)),
                 sv_size = length (spec_stem_part (span mem First Last))
                             - spec_extension_start (spec_stem_part (span mem First Last))\<rparr>"
  using assms utf8_stem_extension_parts [OF assms]
    spec_extension_start_le [of "spec_stem_part (span mem First Last)"]
  by (simp add: utf8_extension_def Let_def size_t_cast_diff)

lemma utf8_root_name_span:
  assumes "First \<le> Last" "Last \<le> length mem"
  shows "utf8_root_name mem \<lparr>sv_data = First, sv_size = Last - First\<rparr> =
           Some \<lparr>sv_data = First, sv_size = spec_root_name_end (span mem First Last)\<rparr>"
  using assms utf8_find_root_name_end_span [OF assms]
  by (simp add: utf8_root_name_def Let_def size_t_cast_diff)

lemma utf8_relative_path_span:
  assumes "First \<le> Last" "Last \<le> length mem"
  shows "utf8_relative_path mem \<lparr>sv_data = First, sv_size = Last - First\<rparr> =
           Some \<lparr>sv_data = First + spec_relative_start (span mem First Last),
                 sv_size = Last - First - spec_relative_start (span mem First Last)\<rparr>"
  using assms utf8_find_relative_path_span [OF assms]
    spec_relative_start_bounds(2) [of "span mem First Last"]
  by (simp add: utf8_relative_path_def Let_def size_t_cast_diff length_span)

lemma utf8_filename_span:
  assumes "First \<le> Last" "Last \<le> length mem"
  shows "utf8_filename mem \<lparr>sv_data = First, sv_size = Last - First\<rparr> =
           Some \<lparr>sv_data = First + spec_filename_start (span mem First Last),
                 sv_size = Last - First - spec_filename_start (span mem First Last)\<rparr>"
  using assms utf8_find_filename_span [OF assms]
    spec_filename_start_bounds(2) [of "span mem First Last"]
  by (simp add: utf8_filename_def Let_def size_t_cast_diff length_span)

section \<open>The boundaries, position by position\<close>

lemma takeWhile_all: "i < length (takeWhile P xs) \<Longrightarrow> P (xs ! i)"
  using nth_mem [of i "takeWhile P xs"] set_takeWhileD [of "takeWhile P xs ! i" P xs]
  by (simp add: takeWhile_nth)

lemma takeWhile_stop: "length (takeWhile P xs) < length xs \<Longrightarrow> \<not> P (xs ! length (takeWhile P xs))"
  by (rule nth_length_takeWhile)

lemma takeWhile_rev_all:
  assumes "length xs - length (takeWhile P (rev xs)) \<le> i" "i < length xs"
  shows "P (xs ! i)"
proof -
  let ?j = "length xs - Suc i"
  have j: "?j < length (takeWhile P (rev xs))" using assms by linarith
  have "P (rev xs ! ?j)" using j by (rule takeWhile_all)
  moreover have "rev xs ! ?j = xs ! (length xs - Suc ?j)" using assms by (intro rev_nth) simp
  moreover have "length xs - Suc ?j = i" using assms by simp
  ultimately show ?thesis by simp
qed

lemma takeWhile_rev_stop:
  assumes "length (takeWhile P (rev xs)) < length xs"
  shows "\<not> P (xs ! (length xs - length (takeWhile P (rev xs)) - 1))"
proof -
  let ?k = "length (takeWhile P (rev xs))"
  have "\<not> P (rev xs ! ?k)" using assms by (intro takeWhile_stop) simp
  moreover have "rev xs ! ?k = xs ! (length xs - Suc ?k)" using assms by (intro rev_nth) simp
  ultimately show ?thesis by simp
qed

text \<open>The boundaries of a path \<open>s\<close>, position by position.\<close>

lemma spec_relative_start_props:
  defines "e \<equiv> spec_root_name_end" and "r \<equiv> spec_relative_start"
  shows "\<And>i. e s \<le> i \<Longrightarrow> i < r s \<Longrightarrow> utf8_is_slash (s ! i)"
    and "r s < length s \<Longrightarrow> \<not> utf8_is_slash (s ! r s)"
proof -
  let ?d = "drop (e s) s"
  let ?k = "length (takeWhile utf8_is_slash ?d)"
  have r: "r s = e s + ?k" by (simp add: r_def e_def spec_relative_start_def Let_def)
  have el: "e s \<le> length s" unfolding e_def by (rule spec_root_name_end_le)
  show "utf8_is_slash (s ! i)" if "e s \<le> i" "i < r s" for i
  proof -
    have "i - e s < ?k" using that r by linarith
    then have "utf8_is_slash (?d ! (i - e s))" by (rule takeWhile_all)
    moreover have "?d ! (i - e s) = s ! (e s + (i - e s))"
      using el that r length_takeWhile_le [of utf8_is_slash ?d] by (intro nth_drop) simp
    ultimately show ?thesis using that by simp
  qed
  show "\<not> utf8_is_slash (s ! r s)" if "r s < length s"
  proof -
    have "?k < length ?d" using that r by simp
    then have "\<not> utf8_is_slash (?d ! ?k)" by (rule takeWhile_stop)
    moreover have "?d ! ?k = s ! (e s + ?k)" using el by (intro nth_drop) simp
    ultimately show ?thesis using r by simp
  qed
qed

lemma spec_filename_start_props:
  defines "r \<equiv> spec_relative_start" and "f \<equiv> spec_filename_start"
  shows "\<And>i. f s \<le> i \<Longrightarrow> i < length s \<Longrightarrow> \<not> utf8_is_slash (s ! i)"
    and "r s < f s \<Longrightarrow> utf8_is_slash (s ! (f s - 1))"
proof -
  let ?d = "drop (r s) s"
  let ?k = "length (takeWhile (\<lambda>c. \<not> utf8_is_slash c) (rev ?d))"
  have f: "f s = length s - ?k" by (simp add: r_def f_def spec_filename_start_def Let_def)
  have rl: "r s \<le> length s" unfolding r_def by (rule spec_relative_start_bounds)
  have kl: "?k \<le> length s - r s" using length_takeWhile_le [of _ "rev ?d"] by simp
  show "\<not> utf8_is_slash (s ! i)" if "f s \<le> i" "i < length s" for i
  proof -
    have "length ?d - ?k \<le> i - r s" "i - r s < length ?d" using that f kl rl by auto
    then have "\<not> utf8_is_slash (?d ! (i - r s))" by (rule takeWhile_rev_all)
    moreover have "?d ! (i - r s) = s ! (r s + (i - r s))" using rl by (intro nth_drop) simp
    moreover have "r s \<le> i" using that f kl by linarith
    ultimately show ?thesis by simp
  qed
  show "utf8_is_slash (s ! (f s - 1))" if "r s < f s"
  proof -
    have "?k < length ?d" using that f kl rl by simp
    then have "\<not> \<not> utf8_is_slash (?d ! (length ?d - ?k - 1))" by (rule takeWhile_rev_stop)
    moreover have "?d ! (length ?d - ?k - 1) = s ! (r s + (length ?d - ?k - 1))"
      using rl by (intro nth_drop) simp
    moreover have "r s + (length ?d - ?k - 1) = f s - 1" using that f kl rl by simp
    ultimately show ?thesis by simp
  qed
qed

lemma spec_parent_end_props:
  defines "r \<equiv> spec_relative_start" and "f \<equiv> spec_filename_start" and "p \<equiv> spec_parent_end"
  shows "\<And>i. p s \<le> i \<Longrightarrow> i < f s \<Longrightarrow> utf8_is_slash (s ! i)"
    and "r s < p s \<Longrightarrow> \<not> utf8_is_slash (s ! (p s - 1))"
proof -
  let ?d = "take (f s - r s) (drop (r s) s)"
  let ?k = "length (takeWhile utf8_is_slash (rev ?d))"
  have p: "p s = f s - ?k"
    by (simp add: r_def f_def p_def spec_parent_end_def spec_filename_start_def Let_def)
  have rf: "r s \<le> f s" "f s \<le> length s" unfolding r_def f_def by (rule spec_filename_start_bounds)+
  have ld: "length ?d = f s - r s" using rf by simp
  have kl: "?k \<le> f s - r s" using length_takeWhile_le [of _ "rev ?d"] ld by simp
  have nth: "?d ! j = s ! (r s + j)" if "j < f s - r s" for j
    using that rf by simp
  show "utf8_is_slash (s ! i)" if "p s \<le> i" "i < f s" for i
  proof -
    have "length ?d - ?k \<le> i - r s" "i - r s < length ?d" using that p kl rf ld by auto
    then have "utf8_is_slash (?d ! (i - r s))" by (rule takeWhile_rev_all)
    moreover have "r s \<le> i" using that p kl by linarith
    ultimately show ?thesis using nth [of "i - r s"] that by simp
  qed
  show "\<not> utf8_is_slash (s ! (p s - 1))" if "r s < p s"
  proof -
    have "?k < length ?d" using that p kl rf ld by linarith
    then have "\<not> utf8_is_slash (?d ! (length ?d - ?k - 1))" by (rule takeWhile_rev_stop)
    moreover have "?d ! (length ?d - ?k - 1) = s ! (r s + (length ?d - ?k - 1))"
      using that p kl ld by (intro nth) linarith
    moreover have "r s + (length ?d - ?k - 1) = p s - 1" using that p kl rf ld by linarith
    ultimately show ?thesis by simp
  qed
qed

lemma sv_contents_span: "sv_contents mem \<lparr>sv_data = a, sv_size = n\<rparr> = span mem a (a + n)"
  by (simp add: sv_contents_def span_def)

lemma take_mid_drop: "a \<le> b \<Longrightarrow> take a s @ take (b - a) (drop a s) @ drop b s = s"
proof -
  assume "a \<le> b"
  then have "drop b s = drop (b - a) (drop a s)" by simp
  then have "take (b - a) (drop a s) @ drop b s = drop a s" by (simp only: append_take_drop_id)
  then show ?thesis by simp
qed

lemma mem_nth_span:
  "First \<le> i \<Longrightarrow> i < Last \<Longrightarrow> Last \<le> length mem \<Longrightarrow> mem ! i = span mem First Last ! (i - First)"
  using span_nth [of "i - First" Last First mem] by simp

lemmas utf8_eval =
  utf8_find_root_name_end_def utf8_has_drive_letter_prefix_def utf8_is_drive_prefix_def
  utf8_ascii_lowercase_def utf8_is_slash_def utf8_find_relative_path_def utf8_find_filename_def
  utf8_root_name_def utf8_relative_path_def utf8_parent_path_def utf8_filename_def
  utf8_stem_def utf8_extension_def utf8_find_extension_def
  std_find_if.simps std_find_if_not_def std_find_def
  utf8_retreat_filename.simps utf8_retreat_slashes.simps utf8_find_extension_loop.simps
  idx_def ptr_diff_def size_t_cast_def and_then_def or_else_def
  bytes_def whole_def sv_contents_def on_path_def Let_def

lemma takeWhile_rev_full:
  "length (takeWhile P (rev xs)) = length xs \<longleftrightarrow> (\<forall>i < length xs. P (xs ! i))"
proof
  assume a: "length (takeWhile P (rev xs)) = length xs"
  show "\<forall>i < length xs. P (xs ! i)"
    using takeWhile_rev_all [of xs P] a by simp
next
  assume a: "\<forall>i < length xs. P (xs ! i)"
  show "length (takeWhile P (rev xs)) = length xs"
  proof (rule ccontr)
    assume "length (takeWhile P (rev xs)) \<noteq> length xs"
    then have lt: "length (takeWhile P (rev xs)) < length xs"
      using length_takeWhile_le [of P "rev xs"] by simp
    then have "\<not> P (xs ! (length xs - length (takeWhile P (rev xs)) - 1))"
      by (rule takeWhile_rev_stop)
    then show False using a lt by simp
  qed
qed

lemma spec_extension_start_scan:
  assumes "2 \<le> length f" "last f \<noteq> 0x2E"
  defines "es \<equiv> spec_extension_start f"
  shows "(\<exists>i. 0 < i \<and> i < length f \<and> f ! i = 0x2E) \<Longrightarrow>
           0 < es \<and> es < length f \<and> f ! es = 0x2E \<and> (\<forall>j. es < j \<and> j < length f \<longrightarrow> f ! j \<noteq> 0x2E)"
    and "\<not> (\<exists>i. 0 < i \<and> i < length f \<and> f ! i = 0x2E) \<Longrightarrow> es = length f"
proof -
  let ?t = "tl f"
  let ?k = "length (takeWhile (\<lambda>c. c \<noteq> 0x2E) (rev ?t))"
  have ne: "f \<noteq> []" "length f \<noteq> 1" using assms(1) by auto
  have es: "es = (if ?k = length ?t then length f else length f - 1 - ?k)"
    using ne assms(2) by (simp add: es_def spec_extension_start_def Let_def)
  have lt: "length ?t = length f - 1" by simp
  have nt: "?t ! j = f ! Suc j" if "j < length ?t" for j using that by (rule nth_tl)
  have full: "?k = length ?t \<longleftrightarrow> \<not> (\<exists>i. 0 < i \<and> i < length f \<and> f ! i = 0x2E)"
  proof -
    have "?k = length ?t \<longleftrightarrow> (\<forall>j < length ?t. ?t ! j \<noteq> 0x2E)" by (rule takeWhile_rev_full)
    also have "\<dots> \<longleftrightarrow> (\<forall>j < length ?t. f ! Suc j \<noteq> 0x2E)" using nt by auto
    also have "\<dots> \<longleftrightarrow> \<not> (\<exists>i. 0 < i \<and> i < length f \<and> f ! i = 0x2E)"
    proof
      assume a: "\<forall>j < length ?t. f ! Suc j \<noteq> 0x2E"
      show "\<not> (\<exists>i. 0 < i \<and> i < length f \<and> f ! i = 0x2E)"
      proof
        assume "\<exists>i. 0 < i \<and> i < length f \<and> f ! i = 0x2E"
        then obtain i where i: "0 < i" "i < length f" "f ! i = 0x2E" by blast
        then have "i - 1 < length ?t" "Suc (i - 1) = i" using lt by auto
        then show False using a i(3) by metis
      qed
    next
      assume a: "\<not> (\<exists>i. 0 < i \<and> i < length f \<and> f ! i = 0x2E)"
      show "\<forall>j < length ?t. f ! Suc j \<noteq> 0x2E"
      proof (intro allI impI)
        fix j assume "j < length ?t"
        then have "0 < Suc j \<and> Suc j < length f" using lt by auto
        then show "f ! Suc j \<noteq> 0x2E" using a by blast
      qed
    qed
    finally show ?thesis .
  qed
  show "es = length f" if "\<not> (\<exists>i. 0 < i \<and> i < length f \<and> f ! i = 0x2E)"
    using that full es by simp
  show "0 < es \<and> es < length f \<and> f ! es = 0x2E \<and> (\<forall>j. es < j \<and> j < length f \<longrightarrow> f ! j \<noteq> 0x2E)"
    if "\<exists>i. 0 < i \<and> i < length f \<and> f ! i = 0x2E"
  proof -
    have kl: "?k < length ?t" using that full length_takeWhile_le [of "\<lambda>c. c \<noteq> 0x2E" "rev ?t"]
      by (metis le_neq_implies_less length_rev)
    then have e: "es = length f - 1 - ?k" using es by simp
    have "\<not> (?t ! (length ?t - ?k - 1) \<noteq> 0x2E)" using kl by (rule takeWhile_rev_stop)
    moreover have "?t ! (length ?t - ?k - 1) = f ! Suc (length ?t - ?k - 1)"
      using kl by (intro nt) simp
    moreover have "Suc (length ?t - ?k - 1) = es" using kl e lt by simp
    ultimately have dot: "f ! es = 0x2E" by simp
    have after: "f ! j \<noteq> 0x2E" if "es < j \<and> j < length f" for j
    proof -
      have "length ?t - ?k \<le> j - 1" "j - 1 < length ?t" using that e kl lt by auto
      then have "?t ! (j - 1) \<noteq> 0x2E" by (rule takeWhile_rev_all)
      moreover have "?t ! (j - 1) = f ! Suc (j - 1)" using that lt by (intro nt) auto
      ultimately show ?thesis using that by simp
    qed
    show ?thesis using dot after e kl lt by auto
  qed
qed

section \<open>The two namespaces\<close>

lemma unat_ucast_8_16: "unat (ucast (c :: char8) :: wchar) = unat c"
proof -
  have "unat c < 2 ^ LENGTH(8)" by (rule unsigned_less)
  then have "unat c < 2 ^ 16" by simp
  then show ?thesis by (simp add: unsigned_ucast_eq take_bit_nat_eq_self)
qed

lemma ucast_eq_numeral_8_16:
  "(ucast (c :: char8) :: wchar) = 0x5C \<longleftrightarrow> c = 0x5C"
  "(ucast (c :: char8) :: wchar) = 0x2F \<longleftrightarrow> c = 0x2F"
  "(ucast (c :: char8) :: wchar) = 0x3A \<longleftrightarrow> c = 0x3A"
  "(ucast (c :: char8) :: wchar) = 0x3F \<longleftrightarrow> c = 0x3F"
  "(ucast (c :: char8) :: wchar) = 0x2E \<longleftrightarrow> c = 0x2E"
  by (simp_all add: word_unat_eq_iff unat_ucast_8_16)

lemma wide_is_slash_ucast: "wide_is_slash (ucast c) = utf8_is_slash c"
  by (simp add: wide_is_slash_def utf8_is_slash_def ucast_eq_numeral_8_16)

lemma wide_lowercase_letter:
  "wide_ascii_lowercase c - 0x61 < 26 \<longleftrightarrow> ascii_letter c"
proof -
  let ?m = "unat (c OR 0x20)"
  have o: "?m = unat c OR 32" by (simp add: unsigned_or_eq)
  have o2: "?m < 65536" using unsigned_less [of "c OR 0x20"] by simp
  have s: "unat ((c OR 0x20) - 0x61) = (if 97 \<le> ?m then ?m - 97 else ?m + 65536 - 97)"
    by (simp add: unat_sub_if')
  have "(c OR 0x20) - 0x61 < 26 \<longleftrightarrow> 97 \<le> ?m \<and> ?m < 123"
    unfolding word_less_nat_alt s using o2 by auto
  also have "\<dots> \<longleftrightarrow> (65 \<le> unat c \<and> unat c \<le> 90) \<or> (97 \<le> unat c \<and> unat c \<le> 122)"
    unfolding o by (rule nat_letter_iff)
  also have "\<dots> \<longleftrightarrow> (0x41 \<le> c \<and> c \<le> 0x5A) \<or> (0x61 \<le> c \<and> c \<le> 0x7A)"
    by (simp add: word_le_nat_alt)
  finally show ?thesis by (simp add: wide_ascii_lowercase_def ascii_letter_def)
qed

lemma ascii_letter_ucast: "ascii_letter (ucast (c :: char8) :: wchar) = ascii_letter c"
  by (simp add: ascii_letter_def word_le_nat_alt unat_ucast_8_16)

lemma wide_drive_test_ucast:
  "wide_ascii_lowercase (ucast c) - 0x61 < 26 \<longleftrightarrow> utf8_ascii_lowercase c - 0x61 < 26"
  by (simp only: wide_lowercase_letter utf8_lowercase_letter ascii_letter_ucast)

lemma length_widen [simp]: "length (widen mem) = length mem"
  by (simp add: widen_def)

lemma nth_widen: "i < length mem \<Longrightarrow> widen mem ! i = ucast (mem ! i)"
  by (simp add: widen_def)

lemma idx_widen: "idx (widen mem) p i = map_option ucast (idx mem p i)"
proof (cases "0 \<le> int p + i \<and> int p + i < int (length mem)")
  case True
  then have "nat (int p + i) < length mem" by linarith
  then show ?thesis using True by (simp add: idx_def Let_def nth_widen)
next
  case False
  then show ?thesis by (auto simp add: idx_def Let_def)
qed

lemma std_find_if_widen:
  "std_find_if pred (widen mem) First Last = std_find_if (\<lambda>c. pred (ucast c)) mem First Last"
proof (induction "\<lambda>c :: char8. pred (ucast c :: wchar)" mem First Last rule: std_find_if.induct)
  case (1 mem First Last)
  show ?case
    using 1 by (subst (1 2) std_find_if.simps) (simp add: nth_widen)
qed

lemma wide_is_drive_prefix_widen:
  "wide_is_drive_prefix (widen mem) First = utf8_is_drive_prefix mem First"
  by (simp add: wide_is_drive_prefix_def utf8_is_drive_prefix_def nth_widen
      wide_drive_test_ucast ucast_eq_numeral_8_16)

lemma wide_has_drive_letter_prefix_widen:
  "wide_has_drive_letter_prefix (widen mem) First Last = utf8_has_drive_letter_prefix mem First Last"
  by (simp add: wide_has_drive_letter_prefix_def utf8_has_drive_letter_prefix_def
      wide_is_drive_prefix_widen)

lemma map_option_widen:
  "map_option wide_is_slash (map_option ucast x) = map_option utf8_is_slash x"
  "map_option (\<lambda>c. \<not> wide_is_slash c) (map_option ucast x) = map_option (\<lambda>c. \<not> utf8_is_slash c) x"
  "map_option (\<lambda>c. c = 0x3F) (map_option (ucast :: char8 \<Rightarrow> wchar) x) = map_option (\<lambda>c. c = 0x3F) x"
  "map_option (\<lambda>c. c = 0x2E) (map_option (ucast :: char8 \<Rightarrow> wchar) x) = map_option (\<lambda>c. c = 0x2E) x"
  by (cases x; simp add: wide_is_slash_ucast ucast_eq_numeral_8_16)+

lemma wide_find_root_name_end_widen:
  "wide_find_root_name_end (widen mem) First Last = utf8_find_root_name_end mem First Last"
proof -
  have b: "idx (widen mem) First 0 \<bind> (\<lambda>c0. if \<not> wide_is_slash c0 then A else B)
         = idx mem First 0 \<bind> (\<lambda>c0. if \<not> utf8_is_slash c0 then A else B)" for A B
    by (cases "idx mem First 0") (simp_all add: idx_widen wide_is_slash_ucast)
  have f: "std_find_if wide_is_slash (widen mem) (First + 3) Last
         = std_find_if utf8_is_slash mem (First + 3) Last"
    by (simp add: std_find_if_widen wide_is_slash_ucast)
  show ?thesis
    unfolding wide_find_root_name_end_def utf8_find_root_name_end_def
      wide_has_drive_letter_prefix_widen b f
    by (simp only: idx_widen map_option_widen)
qed

lemma wide_find_relative_path_widen:
  "wide_find_relative_path (widen mem) First Last = utf8_find_relative_path mem First Last"
  by (simp add: wide_find_relative_path_def utf8_find_relative_path_def
      wide_find_root_name_end_widen std_find_if_not_def std_find_if_widen wide_is_slash_ucast)

lemma wide_retreat_filename_widen:
  "wide_retreat_filename (widen mem) rel_path tail = utf8_retreat_filename mem rel_path tail"
proof (induction mem rel_path tail rule: utf8_retreat_filename.induct)
  case (1 mem rel_path tail)
  show ?case
    using 1 by (subst wide_retreat_filename.simps, subst utf8_retreat_filename.simps)
      (auto simp add: idx_widen wide_is_slash_ucast split: option.splits)
qed

lemma wide_retreat_slashes_widen:
  "wide_retreat_slashes (widen mem) rel_path tail = utf8_retreat_slashes mem rel_path tail"
proof (induction mem rel_path tail rule: utf8_retreat_slashes.induct)
  case (1 mem rel_path tail)
  show ?case
    using 1 by (subst wide_retreat_slashes.simps, subst utf8_retreat_slashes.simps)
      (auto simp add: idx_widen wide_is_slash_ucast split: option.splits)
qed

lemma wide_find_extension_loop_widen:
  "wide_find_extension_loop (widen mem) filename extension additional
     = utf8_find_extension_loop mem filename extension additional"
proof (induction mem filename extension additional rule: utf8_find_extension_loop.induct)
  case (1 mem filename extension additional)
  show ?case
    using 1 by (subst wide_find_extension_loop.simps, subst utf8_find_extension_loop.simps)
      (auto simp add: idx_widen ucast_eq_numeral_8_16 split: option.splits)
qed

lemma wide_find_filename_widen:
  "wide_find_filename (widen mem) path path_end = utf8_find_filename mem path path_end"
  by (simp add: wide_find_filename_def utf8_find_filename_def wide_find_relative_path_widen
      wide_retreat_filename_widen)

lemma wide_find_extension_widen:
  "wide_find_extension (widen mem) filename additional = utf8_find_extension mem filename additional"
proof -
  have b: "idx (widen mem) p 0 \<bind> (\<lambda>c. if c = 0x2E then A else B)
         = idx mem p 0 \<bind> (\<lambda>c. if c = 0x2E then A else B)" for A B p
    by (cases "idx mem p 0") (simp_all add: idx_widen ucast_eq_numeral_8_16)
  show ?thesis
    unfolding wide_find_extension_def utf8_find_extension_def Let_def b
      wide_find_extension_loop_widen
    by (simp only: idx_widen map_option_widen)
qed

lemma std_find_colon_widen:
  "std_find (widen mem) First Last 0x3A = std_find mem First Last 0x3A"
  by (simp add: std_find_def std_find_if_widen ucast_eq_numeral_8_16)

lemma sv_contents_widen: "sv_contents (widen mem) v = widen (sv_contents mem v)"
  by (simp add: sv_contents_def widen_def take_map drop_map)

lemma wide_views_widen:
  "wide_root_name (widen mem) path = utf8_root_name mem path"
  "wide_relative_path (widen mem) path = utf8_relative_path mem path"
  "wide_parent_path (widen mem) path = utf8_parent_path mem path"
  "wide_filename (widen mem) path = utf8_filename mem path"
  "wide_stem (widen mem) path = utf8_stem mem path"
  "wide_extension (widen mem) path = utf8_extension mem path"
  by (simp_all add: wide_root_name_def utf8_root_name_def wide_relative_path_def
      utf8_relative_path_def wide_parent_path_def utf8_parent_path_def wide_filename_def
      utf8_filename_def wide_stem_def utf8_stem_def wide_extension_def utf8_extension_def
      wide_find_root_name_end_widen wide_find_relative_path_widen wide_retreat_filename_widen
      wide_retreat_slashes_widen wide_find_filename_widen wide_find_extension_widen
      std_find_colon_widen)

section \<open>Parsing a component again\<close>

lemma slash_not_letter: "utf8_is_slash c \<Longrightarrow> \<not> ascii_letter c"
  by (auto simp: utf8_is_slash_def ascii_letter_def)

lemma takeWhile_hd_Nil: "xs = [] \<or> \<not> P (xs ! 0) \<Longrightarrow> takeWhile P xs = []"
  by (cases xs) auto

lemma takeWhile_all_id: "\<forall>c \<in> set xs. P c \<Longrightarrow> takeWhile P xs = xs"
  by (simp add: takeWhile_eq_all_conv)

lemma spec_root_name_end_noslash:
  assumes "s = [] \<or> \<not> utf8_is_slash (s ! 0)"
  shows "spec_root_name_end s = (if drive_prefix s then 2 else 0)"
  using assms by (auto simp: spec_root_name_end_def drive_prefix_def)

lemma spec_relative_start_noslash:
  assumes "s = [] \<or> \<not> utf8_is_slash (s ! 0)"
  shows "spec_relative_start s = 0 \<longleftrightarrow> \<not> drive_prefix s"
proof (cases "drive_prefix s")
  case True
  then have "spec_root_name_end s = 2" using assms by (simp add: spec_root_name_end_noslash)
  then show ?thesis using True spec_relative_start_bounds(1) [of s] by simp
next
  case False
  then have "spec_root_name_end s = 0" using assms by (simp add: spec_root_name_end_noslash)
  moreover have "takeWhile utf8_is_slash s = []" using assms by (rule takeWhile_hd_Nil)
  ultimately show ?thesis using False by (simp add: spec_relative_start_def)
qed

lemma spec_filename_start_noslash:
  assumes "\<forall>c \<in> set s. \<not> utf8_is_slash c"
  shows "spec_filename_start s = (if drive_prefix s then 2 else 0)"
proof -
  have hd: "s = [] \<or> \<not> utf8_is_slash (s ! 0)" using assms by (cases s) auto
  let ?e = "spec_root_name_end s"
  have e: "?e = (if drive_prefix s then 2 else 0)" using hd by (rule spec_root_name_end_noslash)
  have el: "?e \<le> length s" by (rule spec_root_name_end_le)
  have ns: "\<forall>c \<in> set (drop ?e s). \<not> utf8_is_slash c" using assms in_set_dropD by fast
  then have "drop ?e s = [] \<or> \<not> utf8_is_slash (drop ?e s ! 0)"
    by (cases "drop ?e s") auto
  then have "takeWhile utf8_is_slash (drop ?e s) = []" by (rule takeWhile_hd_Nil)
  then have r: "spec_relative_start s = ?e" by (simp add: spec_relative_start_def)
  have "takeWhile (\<lambda>c. \<not> utf8_is_slash c) (rev (drop ?e s)) = rev (drop ?e s)"
    using ns by (intro takeWhile_all_id) simp
  then have "length (takeWhile (\<lambda>c. \<not> utf8_is_slash c) (rev (drop ?e s))) = length s - ?e"
    by (simp only: length_rev length_drop)
  then have "spec_filename_start s = length s - (length s - ?e)"
    unfolding spec_filename_start_def r Let_def by (simp only:)
  then show ?thesis using e el by simp
qed

lemma spec_extension_start_pos: "spec_extension_start f = 0 \<longleftrightarrow> f = []"
proof (cases "f = []")
  case True
  then show ?thesis by (simp add: spec_extension_start_def)
next
  case False
  have k: "length (takeWhile (\<lambda>c. c \<noteq> 0x2E) (rev (tl f))) \<le> length f - 1"
    using length_takeWhile_le [of _ "rev (tl f)"] by simp
  have "0 < length f" using False by simp
  then have "length f = 1 \<or> 2 \<le> length f" by linarith
  then have "0 < spec_extension_start f" using k False
    by (auto simp: spec_extension_start_def Let_def)
  then show ?thesis using False by simp
qed

lemma spec_extension_start_full:
  "spec_extension_start f = length f \<longleftrightarrow>
     f = [0x2E, 0x2E] \<or> (\<forall>i. 0 < i \<and> i < length f \<longrightarrow> f ! i \<noteq> 0x2E)"
proof -
  consider (short) "length f \<le> 1" | (dot) "2 \<le> length f" "last f = 0x2E"
    | (scan) "2 \<le> length f" "last f \<noteq> 0x2E" by linarith
  then show ?thesis
  proof cases
    case short
    then have "f = [] \<or> length f = 1" by (cases f) auto
    moreover have "\<forall>i. 0 < i \<and> i < length f \<longrightarrow> f ! i \<noteq> 0x2E" using short by auto
    ultimately show ?thesis by (auto simp: spec_extension_start_def)
  next
    case dot
    then have ne: "f \<noteq> []" "length f \<noteq> 1" by auto
    have "f ! (length f - 1) = 0x2E" using dot ne by (simp add: last_conv_nth)
    moreover have "0 < length f - 1 \<and> length f - 1 < length f" using dot(1) by linarith
    ultimately have "\<not> (\<forall>i. 0 < i \<and> i < length f \<longrightarrow> f ! i \<noteq> 0x2E)"
      by blast
    then show ?thesis using dot ne by (auto simp: spec_extension_start_def)
  next
    case scan
    have nd: "f \<noteq> [0x2E, 0x2E]" using scan(2) by auto
    show ?thesis
    proof (cases "\<exists>i. 0 < i \<and> i < length f \<and> f ! i = 0x2E")
      case True
      then have "spec_extension_start f < length f"
        using spec_extension_start_scan(1) [OF scan] by simp
      then show ?thesis using True nd by auto
    next
      case False
      then have "spec_extension_start f = length f"
        using spec_extension_start_scan(2) [OF scan] by simp
      then show ?thesis using False by auto
    qed
  qed
qed

lemma spec_parent_end_full:
  "spec_parent_end s = length s \<longleftrightarrow> spec_relative_start s = length s"
proof
  assume "spec_relative_start s = length s"
  then show "spec_parent_end s = length s"
    using spec_parent_end_bounds [of s] spec_filename_start_bounds [of s] by simp
next
  assume a: "spec_parent_end s = length s"
  let ?r = "spec_relative_start s" and ?f = "spec_filename_start s"
  have f: "?f = length s" using a spec_parent_end_bounds(2) [of s] spec_filename_start_bounds(2) [of s]
    by simp
  show "?r = length s"
  proof (rule ccontr)
    assume "?r \<noteq> length s"
    then have lt: "?r < length s" using spec_relative_start_bounds(2) [of s] by simp
    then have "?r < ?f" using f by simp
    then have sl: "utf8_is_slash (s ! (?f - 1))" by (rule spec_filename_start_props(2))
    have "?r < spec_parent_end s" using a lt by simp
    then have "\<not> utf8_is_slash (s ! (spec_parent_end s - 1))" by (rule spec_parent_end_props(2))
    then show False using sl a f by simp
  qed
qed

lemma take_2_nth: "2 \<le> length s \<Longrightarrow> take 2 s = [s ! 0, s ! 1]"
proof -
  assume "2 \<le> length s"
  then obtain a b r where "s = a # b # r" by (cases s; cases "tl s") auto
  then show ?thesis by simp
qed

lemma question_not_slash: "c = 0x3F \<or> c = 0x2E \<Longrightarrow> \<not> utf8_is_slash c"
  by (auto simp: utf8_is_slash_def)

lemma spec_root_name_end_idem:
  "spec_root_name_end (take (spec_root_name_end s) s) =
     (if spec_root_name_end s = 3 \<and> s ! 1 = 0x3F then 0 else spec_root_name_end s)"
proof -
  let ?e = "spec_root_name_end s"
  let ?dev = "device_prefix (take 3 s) \<and> 3 < length s \<and> utf8_is_slash (s ! 3)
              \<and> (length s = 4 \<or> \<not> utf8_is_slash (s ! 4))"
  let ?unc = "utf8_is_slash (s ! 0) \<and> utf8_is_slash (s ! 1) \<and> 2 < length s \<and> \<not> utf8_is_slash (s ! 2)"
  let ?k = "length (takeWhile (\<lambda>c. \<not> utf8_is_slash c) (drop 3 s))"
  have e: "?e = (if length s < 2 then 0
      else if ascii_letter (s ! 0) \<and> s ! 1 = 0x3A then 2
      else if \<not> utf8_is_slash (s ! 0) then 0
      else if ?dev then 3
      else if ?unc then 3 + ?k
      else 0)"
    by (simp only: spec_root_name_end_def)
  consider (zero) "?e = 0"
    | (drive) "2 \<le> length s" "ascii_letter (s ! 0)" "s ! 1 = 0x3A" "?e = 2"
    | (device) "utf8_is_slash (s ! 0)" "?dev" "?e = 3"
    | (unc) "\<not> ?dev" "?unc" "?e = 3 + ?k"
    using e by (auto split: if_splits)
  then show ?thesis
  proof cases
    case zero
    then show ?thesis by (simp add: spec_root_name_end_def)
  next
    case drive
    have "take 2 s = [s ! 0, s ! 1]" using drive(1) by (rule take_2_nth)
    then show ?thesis using drive by (simp add: spec_root_name_end_def)
  next
    case device
    then have t: "take 3 s = [s ! 0, s ! 1, s ! 2]" by (intro take_3_nth) simp
    have d: "(utf8_is_slash (s ! 1) \<and> (s ! 2 = 0x3F \<or> s ! 2 = 0x2E)) \<or> (s ! 1 = 0x3F \<and> s ! 2 = 0x3F)"
      using device(2) t by (simp add: device_prefix_def)
    have nl: "\<not> ascii_letter (s ! 0)" using device(1) by (rule slash_not_letter)
    show ?thesis
    proof (cases "s ! 1 = 0x3F")
      case True
      then have "\<not> utf8_is_slash (s ! 1)" by (simp add: question_not_slash)
      then show ?thesis using True device t nl
        by (simp add: spec_root_name_end_def device_prefix_def)
    next
      case False
      then have "utf8_is_slash (s ! 1)" "\<not> utf8_is_slash (s ! 2)"
        using d question_not_slash [of "s ! 2"] by auto
      then show ?thesis using False device t nl
        by (simp add: spec_root_name_end_def device_prefix_def)
    qed
  next
    case unc
    define t where "t = take (3 + ?k) s"
    have kl: "?k \<le> length s - 3" using length_takeWhile_le [of _ "drop 3 s"] by simp
    have "3 + ?k \<le> length s" using kl unc(2) by linarith
    then have lt: "length t = 3 + ?k" by (simp add: t_def)
    have nth: "t ! i = s ! i" if "i < 3 + ?k" for i using that by (simp add: t_def)
    have nl: "\<not> ascii_letter (t ! 0)" using unc(2) nth [of 0] slash_not_letter by simp
    have d3: "drop 3 t = takeWhile (\<lambda>c. \<not> utf8_is_slash c) (drop 3 s)"
      by (simp add: t_def drop_take flip: takeWhile_eq_take)
    have nd: "\<not> (3 < length t \<and> utf8_is_slash (t ! 3))"
    proof
      assume a: "3 < length t \<and> utf8_is_slash (t ! 3)"
      then have "0 < ?k" using lt by simp
      then have "\<not> utf8_is_slash (drop 3 s ! 0)" by (rule takeWhile_all)
      moreover have "drop 3 s ! 0 = s ! 3" using unc(2) kl \<open>0 < ?k\<close> by simp
      moreover have "t ! 3 = s ! 3" using \<open>0 < ?k\<close> by (intro nth) simp
      ultimately show False using a by simp
    qed
    have u: "utf8_is_slash (t ! 0)" "utf8_is_slash (t ! 1)" "\<not> utf8_is_slash (t ! 2)"
      using unc(2) nth [of 0] nth [of 1] nth [of 2] by simp_all
    have l3: "\<not> length t < 2" "2 < length t" using lt by simp_all
    have "spec_root_name_end t = 3 + length (takeWhile (\<lambda>c. \<not> utf8_is_slash c) (drop 3 t))"
      unfolding spec_root_name_end_def using l3 nl nd u by auto
    also have "\<dots> = 3 + ?k" unfolding d3 by simp
    finally have "spec_root_name_end t = 3 + ?k" .
    moreover have "s ! 1 \<noteq> 0x3F" using unc(2) question_not_slash [of "s ! 1"] by auto
    ultimately show ?thesis using unc(3) by (simp add: t_def)
  qed
qed

lemma utf8_views:
  assumes "sv_valid mem q"
  defines "c \<equiv> sv_contents mem q"
  shows "utf8_root_name mem q = Some \<lparr>sv_data = sv_data q, sv_size = spec_root_name_end c\<rparr>"
    and "utf8_relative_path mem q =
           Some \<lparr>sv_data = sv_data q + spec_relative_start c, sv_size = sv_size q - spec_relative_start c\<rparr>"
    and "utf8_parent_path mem q = Some \<lparr>sv_data = sv_data q, sv_size = spec_parent_end c\<rparr>"
    and "utf8_filename mem q =
           Some \<lparr>sv_data = sv_data q + spec_filename_start c, sv_size = sv_size q - spec_filename_start c\<rparr>"
    and "utf8_stem mem q =
           Some \<lparr>sv_data = sv_data q + spec_filename_start c,
                 sv_size = spec_extension_start (spec_stem_part c)\<rparr>"
    and "utf8_extension mem q =
           Some \<lparr>sv_data = sv_data q + spec_filename_start c + spec_extension_start (spec_stem_part c),
                 sv_size = length (spec_stem_part c) - spec_extension_start (spec_stem_part c)\<rparr>"
    and "utf8_has_drive_letter_prefix mem (sv_data q) (sv_data q + sv_size q) = Some (drive_prefix c)"
    and "length c = sv_size q"
proof -
  let ?F = "sv_data q" and ?L = "sv_data q + sv_size q"
  have v: "?F \<le> ?L" "?L \<le> length mem" using assms by (simp_all add: sv_valid_def)
  have p: "\<lparr>sv_data = sv_data q, sv_size = sv_size q\<rparr> = q" by simp
  have c: "span mem ?F ?L = c" by (simp add: c_def sv_contents_def span_def)
  show "utf8_root_name mem q = Some \<lparr>sv_data = sv_data q, sv_size = spec_root_name_end c\<rparr>"
    using utf8_root_name_span [OF v] by (simp add: p c)
  show "utf8_relative_path mem q =
           Some \<lparr>sv_data = sv_data q + spec_relative_start c, sv_size = sv_size q - spec_relative_start c\<rparr>"
    using utf8_relative_path_span [OF v] by (simp add: p c)
  show "utf8_parent_path mem q = Some \<lparr>sv_data = sv_data q, sv_size = spec_parent_end c\<rparr>"
    using utf8_parent_path_span [OF v] by (simp add: p c)
  show "utf8_filename mem q =
           Some \<lparr>sv_data = sv_data q + spec_filename_start c, sv_size = sv_size q - spec_filename_start c\<rparr>"
    using utf8_filename_span [OF v] by (simp add: p c)
  show "utf8_stem mem q =
           Some \<lparr>sv_data = sv_data q + spec_filename_start c,
                 sv_size = spec_extension_start (spec_stem_part c)\<rparr>"
    using utf8_stem_span [OF v] by (simp add: p c)
  show "utf8_extension mem q =
           Some \<lparr>sv_data = sv_data q + spec_filename_start c + spec_extension_start (spec_stem_part c),
                 sv_size = length (spec_stem_part c) - spec_extension_start (spec_stem_part c)\<rparr>"
    using utf8_extension_span [OF v] by (simp add: p c)
  show "utf8_has_drive_letter_prefix mem (sv_data q) (sv_data q + sv_size q) = Some (drive_prefix c)"
    using utf8_has_drive_letter_prefix_span [OF v] by (simp add: c drive_prefix_def)
  show "length c = sv_size q" using v c length_span [of ?L mem ?F] by simp
qed

lemma view_eq_iff:
  "\<lparr>sv_data = a, sv_size = m\<rparr> = q \<longleftrightarrow> a = sv_data q \<and> m = sv_size q"
  by (cases q) auto

lemma extension_fixed_iff:
  assumes "sv_valid mem q"
  shows "utf8_extension mem q = Some q \<longleftrightarrow> sv_size q = 0"
proof -
  let ?c = "sv_contents mem q"
  let ?fs = "spec_filename_start ?c" and ?tw = "spec_stem_part ?c"
  let ?es = "spec_extension_start ?tw"
  have len: "length ?c = sv_size q" using assms by (rule utf8_views(8))
  have b: "?fs + length ?tw \<le> sv_size q" using length_spec_stem_part [of ?c] len by simp
  have "utf8_extension mem q = Some q \<longleftrightarrow> ?fs + ?es = 0 \<and> length ?tw - ?es = sv_size q"
    unfolding utf8_views(6) [OF assms] by (simp add: view_eq_iff add.assoc)
  also have "\<dots> \<longleftrightarrow> sv_size q = 0"
  proof
    assume a: "?fs + ?es = 0 \<and> length ?tw - ?es = sv_size q"
    then have "?tw = []" using spec_extension_start_pos [of ?tw] by simp
    then show "sv_size q = 0" using a by simp
  next
    assume a: "sv_size q = 0"
    then have "?fs = 0" "?tw = []" using b by simp_all
    then show "?fs + ?es = 0 \<and> length ?tw - ?es = sv_size q"
      using a spec_extension_start_pos [of ?tw] by simp
  qed
  finally show ?thesis .
qed

lemma parent_path_fixed_iff:
  assumes "sv_valid mem q"
  shows "utf8_parent_path mem q = Some q \<longleftrightarrow>
         utf8_relative_path mem q = Some \<lparr>sv_data = sv_data q + sv_size q, sv_size = 0\<rparr>"
proof -
  let ?c = "sv_contents mem q"
  have len: "length ?c = sv_size q" using assms by (rule utf8_views(8))
  have r: "spec_relative_start ?c \<le> sv_size q" using spec_relative_start_bounds(2) [of ?c] len by simp
  have "utf8_parent_path mem q = Some q \<longleftrightarrow> spec_parent_end ?c = length ?c"
    unfolding utf8_views(3) [OF assms] by (simp add: view_eq_iff len)
  also have "\<dots> \<longleftrightarrow> spec_relative_start ?c = length ?c" by (rule spec_parent_end_full)
  also have "\<dots> \<longleftrightarrow> utf8_relative_path mem q = Some \<lparr>sv_data = sv_data q + sv_size q, sv_size = 0\<rparr>"
    unfolding utf8_views(2) [OF assms] using r by (auto simp add: len)
  finally show ?thesis .
qed

lemma relative_path_fixed_iff:
  assumes "sv_valid mem q" and "sv_contents mem q = [] \<or> \<not> utf8_is_slash (sv_contents mem q ! 0)"
  shows "utf8_relative_path mem q = Some q \<longleftrightarrow>
         utf8_has_drive_letter_prefix mem (sv_data q) (sv_data q + sv_size q) = Some False"
proof -
  let ?c = "sv_contents mem q"
  have "utf8_relative_path mem q = Some q \<longleftrightarrow> spec_relative_start ?c = 0"
    unfolding utf8_views(2) [OF assms(1)] by (auto simp add: view_eq_iff)
  also have "\<dots> \<longleftrightarrow> \<not> drive_prefix ?c" using assms(2) by (rule spec_relative_start_noslash)
  finally show ?thesis unfolding utf8_views(7) [OF assms(1)] by simp
qed

lemma filename_fixed_iff:
  assumes "sv_valid mem q" and "\<forall>x \<in> set (sv_contents mem q). \<not> utf8_is_slash x"
  shows "utf8_filename mem q = Some q \<longleftrightarrow>
         utf8_has_drive_letter_prefix mem (sv_data q) (sv_data q + sv_size q) = Some False"
proof -
  let ?c = "sv_contents mem q"
  have "utf8_filename mem q = Some q \<longleftrightarrow> spec_filename_start ?c = 0"
    unfolding utf8_views(4) [OF assms(1)] by (auto simp add: view_eq_iff)
  also have "\<dots> \<longleftrightarrow> \<not> drive_prefix ?c"
    using spec_filename_start_noslash [OF assms(2)] by simp
  finally show ?thesis unfolding utf8_views(7) [OF assms(1)] by simp
qed

lemma stem_fixed_iff:
  assumes "sv_valid mem q"
    and "\<forall>x \<in> set (sv_contents mem q). \<not> utf8_is_slash x \<and> x \<noteq> 0x3A"
  shows "utf8_stem mem q = Some q \<longleftrightarrow>
         sv_contents mem q = [0x2E, 0x2E]
         \<or> (\<forall>i. 0 < i \<and> i < sv_size q \<longrightarrow> mem ! (sv_data q + i) \<noteq> 0x2E)"
proof -
  let ?c = "sv_contents mem q"
  have len: "length ?c = sv_size q" using assms(1) by (rule utf8_views(8))
  have v: "sv_data q + sv_size q \<le> length mem" using assms(1) by (simp add: sv_valid_def)
  have nth: "?c ! i = mem ! (sv_data q + i)" if "i < sv_size q" for i
    using that v by (simp add: sv_contents_def)
  have nd: "\<not> drive_prefix ?c"
  proof
    assume "drive_prefix ?c"
    then have "2 \<le> length ?c" "?c ! 1 = 0x3A" by (simp_all add: drive_prefix_def)
    then have "0x3A \<in> set ?c" using nth_mem [of 1 ?c] by auto
    then show False using assms(2) by blast
  qed
  have fs: "spec_filename_start ?c = 0"
    using spec_filename_start_noslash [of ?c] assms(2) nd by simp
  have "takeWhile (\<lambda>x. x \<noteq> 0x3A) ?c = ?c" using assms(2) by (intro takeWhile_all_id) blast
  then have tw: "spec_stem_part ?c = ?c" by (simp add: spec_stem_part_def fs)
  have "utf8_stem mem q = Some q \<longleftrightarrow> spec_extension_start ?c = length ?c"
    unfolding utf8_views(5) [OF assms(1)] by (simp add: view_eq_iff fs tw len)
  also have "\<dots> \<longleftrightarrow> ?c = [0x2E, 0x2E] \<or> (\<forall>i. 0 < i \<and> i < length ?c \<longrightarrow> ?c ! i \<noteq> 0x2E)"
    by (rule spec_extension_start_full)
  also have "\<dots> \<longleftrightarrow> ?c = [0x2E, 0x2E]
         \<or> (\<forall>i. 0 < i \<and> i < sv_size q \<longrightarrow> mem ! (sv_data q + i) \<noteq> 0x2E)"
    using nth len by auto
  finally show ?thesis .
qed

lemma sv_contents_sub:
  assumes "a + m \<le> sv_size path"
  shows "sv_contents mem \<lparr>sv_data = sv_data path + a, sv_size = m\<rparr>
           = take m (drop a (sv_contents mem path))"
proof -
  have "m \<le> sv_size path - a" using assms by simp
  then show ?thesis
    by (simp add: sv_contents_def drop_take min_def add.commute)
qed

lemma sv_valid_sub:
  "sv_valid mem path \<Longrightarrow> a + m \<le> sv_size path \<Longrightarrow>
   sv_valid mem \<lparr>sv_data = sv_data path + a, sv_size = m\<rparr>"
  by (simp add: sv_valid_def)

lemma root_name_fixed_iff:
  assumes "sv_valid mem path"
  defines "rn \<equiv> \<lparr>sv_data = sv_data path, sv_size = spec_root_name_end (sv_contents mem path)\<rparr>"
  shows "utf8_root_name mem rn = Some rn \<longleftrightarrow>
         \<not> (sv_size rn = 3 \<and> mem ! (sv_data rn + 1) = 0x3F)"
proof -
  let ?s = "sv_contents mem path"
  let ?e = "spec_root_name_end ?s"
  have len: "length ?s = sv_size path" using assms(1) by (rule utf8_views(8))
  have e: "?e \<le> sv_size path" using spec_root_name_end_le [of ?s] len by simp
  have v: "sv_valid mem rn"
    using sv_valid_sub [OF assms(1), of 0 ?e] e by (simp add: rn_def)
  have c: "sv_contents mem rn = take ?e ?s"
    using sv_contents_sub [of 0 ?e path mem] e by (simp add: rn_def)
  have n1: "?s ! 1 = mem ! (sv_data path + 1)" if "?e = 3"
  proof -
    have "1 < sv_size path" using that e by simp
    moreover have "sv_data path + sv_size path \<le> length mem"
      using assms(1) by (simp add: sv_valid_def)
    ultimately show ?thesis by (simp add: sv_contents_def)
  qed
  have "utf8_root_name mem rn = Some rn \<longleftrightarrow> spec_root_name_end (take ?e ?s) = ?e"
    unfolding utf8_views(1) [OF v] c by (simp add: view_eq_iff rn_def)
  also have "\<dots> \<longleftrightarrow> \<not> (?e = 3 \<and> ?s ! 1 = 0x3F)"
    unfolding spec_root_name_end_idem by auto
  also have "\<dots> \<longleftrightarrow> \<not> (sv_size rn = 3 \<and> mem ! (sv_data rn + 1) = 0x3F)"
    using n1 by (auto simp add: rn_def)
  finally show ?thesis .
qed

section \<open>The claims\<close>

text \<open>
  C8. For every span \<open>[First, Last)\<close> of the storage, \<^verbatim>\<open>has_drive_letter_prefix\<close> returns
  true exactly when the span has at least two units, the first is an ASCII letter (A-Z or
  a-z, nothing else) and the second is a colon. It never fails: when it calls
  \<^verbatim>\<open>is_drive_prefix\<close> the two units that function requires are there. It is true for
  "c:" and "C:", false for "1:", "c" and the empty span.
\<close>

theorem has_drive_letter_prefix_iff:
  assumes "First \<le> Last" and "Last \<le> length mem"
  shows "utf8_has_drive_letter_prefix mem First Last =
           Some (2 \<le> Last - First \<and> ascii_letter (mem ! First) \<and> mem ! (First + 1) = 0x3A)
         \<and> (2 \<le> Last - First \<longrightarrow> utf8_is_drive_prefix mem First \<noteq> None)
         \<and> utf8_has_drive_letter_prefix (bytes ''c:'') 0 2 = Some True
         \<and> utf8_has_drive_letter_prefix (bytes ''C:'') 0 2 = Some True
         \<and> utf8_has_drive_letter_prefix (bytes ''1:'') 0 2 = Some False
         \<and> utf8_has_drive_letter_prefix (bytes ''c'') 0 1 = Some False
         \<and> utf8_has_drive_letter_prefix (bytes []) 0 0 = Some False"
proof -
  have a: "utf8_has_drive_letter_prefix mem First Last =
           Some (2 \<le> Last - First \<and> ascii_letter (mem ! First) \<and> mem ! (First + 1) = 0x3A)"
    using assms utf8_has_drive_letter_prefix_span [OF assms]
    by (cases "2 \<le> Last - First") (simp_all add: length_span span_nth)
  have b: "2 \<le> Last - First \<longrightarrow> utf8_is_drive_prefix mem First \<noteq> None"
    using assms by (auto simp add: utf8_is_drive_prefix_def)
  have c: "utf8_has_drive_letter_prefix (bytes ''c:'') 0 2 = Some True"
    "utf8_has_drive_letter_prefix (bytes ''C:'') 0 2 = Some True"
    "utf8_has_drive_letter_prefix (bytes ''1:'') 0 2 = Some False"
    "utf8_has_drive_letter_prefix (bytes ''c'') 0 1 = Some False"
    "utf8_has_drive_letter_prefix (bytes []) 0 0 = Some False"
    by (simp_all add: utf8_has_drive_letter_prefix_def utf8_is_drive_prefix_def ptr_diff_def
        and_then_def utf8_ascii_lowercase_def bytes_def)
  show ?thesis using a b c by simp
qed

theorem has_drive_letter_prefix_iff_witness:
  "(0::nat) \<le> 2 \<and> 2 \<le> length (bytes ''X:'')
   \<and> utf8_has_drive_letter_prefix (bytes ''X:'') 0 2 = Some True
   \<and> utf8_is_drive_prefix (bytes ''X:'') 0 \<noteq> None"
  using has_drive_letter_prefix_iff [of 0 2 "bytes ''X:''"]
  by (simp add: bytes_def ascii_letter_def)

text \<open>
  C1. For every span \<open>[First, Last)\<close> of the storage, \<^verbatim>\<open>find_root_name_end\<close> returns
  the boundary that the six-step decision order of the specification gives
  (\<open>spec_root_name_end\<close>, an offset from \<open>First\<close>), and \<^verbatim>\<open>root_name\<close> is the
  view from \<open>First\<close> to that boundary.
\<close>

theorem find_root_name_end_decision:
  assumes "First \<le> Last" and "Last \<le> length mem"
  shows "utf8_find_root_name_end mem First Last =
           Some (First + spec_root_name_end (span mem First Last))
         \<and> utf8_root_name mem \<lparr>sv_data = First, sv_size = Last - First\<rparr> =
           Some \<lparr>sv_data = First, sv_size = spec_root_name_end (span mem First Last)\<rparr>"
  using assms utf8_find_root_name_end_span [OF assms]
  by (simp add: utf8_root_name_def Let_def size_t_cast_diff)

theorem find_root_name_end_decision_witness:
  "(0::nat) \<le> 14 \<and> 14 \<le> length (bytes ''//server/share'')
   \<and> utf8_find_root_name_end (bytes ''//server/share'') 0 14 = Some 8
   \<and> utf8_root_name (bytes ''//server/share'') \<lparr>sv_data = 0, sv_size = 14\<rparr> =
       Some \<lparr>sv_data = 0, sv_size = 8\<rparr>"
  using find_root_name_end_decision [of 0 14 "bytes ''//server/share''"]
  by (simp add: bytes_def span_def spec_root_name_end_def device_prefix_def utf8_is_slash_def
      ascii_letter_def)

text \<open>
  C2. For every non-empty filename range \<open>[filename, additional)\<close>, \<^verbatim>\<open>find_extension\<close>
  returns: the end of the range for a filename of one unit; for one that ends in a dot, the end
  of the range when the filename is ".." and the position of that dot otherwise; else the
  position of the rightmost dot after position 0, and the end of the range when there is no
  such dot. So "archive.tar.gz" has stem "archive.tar" and extension ".gz", ".." has stem ".."
  and no extension, ".bashrc" has stem ".bashrc" and no extension, "x." has stem "x" and
  extension ".".
\<close>

theorem find_extension_rules:
  assumes "filename < additional" and "additional \<le> length mem"
  shows "(\<exists>e. utf8_find_extension mem filename additional = Some e
            \<and> filename \<le> e \<and> e \<le> additional
            \<and> (additional - filename = 1 \<longrightarrow> e = additional)
            \<and> (2 \<le> additional - filename \<and> mem ! (additional - 1) = 0x2E \<longrightarrow>
                 (if span mem filename additional = [0x2E, 0x2E] then e = additional
                  else e = additional - 1))
            \<and> (2 \<le> additional - filename \<and> mem ! (additional - 1) \<noteq> 0x2E \<longrightarrow>
                 (if \<exists>i. filename < i \<and> i < additional \<and> mem ! i = 0x2E
                  then filename < e \<and> e < additional \<and> mem ! e = 0x2E
                       \<and> (\<forall>j. e < j \<and> j < additional \<longrightarrow> mem ! j \<noteq> 0x2E)
                  else e = additional)))
       \<and> on_path utf8_stem (bytes ''archive.tar.gz'') = Some (bytes ''archive.tar'')
       \<and> on_path utf8_extension (bytes ''archive.tar.gz'') = Some (bytes ''.gz'')
       \<and> on_path utf8_stem (bytes ''..'') = Some (bytes ''..'')
       \<and> on_path utf8_extension (bytes ''..'') = Some (bytes [])
       \<and> on_path utf8_stem (bytes ''.bashrc'') = Some (bytes ''.bashrc'')
       \<and> on_path utf8_extension (bytes ''.bashrc'') = Some (bytes [])
       \<and> on_path utf8_stem (bytes ''x.'') = Some (bytes ''x'')
       \<and> on_path utf8_extension (bytes ''x.'') = Some (bytes ''.'')"
proof -
  let ?f = "span mem filename additional"
  let ?es = "spec_extension_start ?f"
  have le: "filename \<le> additional" using assms by simp
  have len: "length ?f = additional - filename" using assms by (simp add: length_span)
  have ne: "?f \<noteq> []" using len assms by auto
  have nth: "mem ! i = ?f ! (i - filename)" if "filename \<le> i" "i < additional" for i
    using that assms by (intro mem_nth_span)
  have lst: "last ?f = mem ! (additional - 1)"
    using ne len assms nth [of "additional - 1"] by (simp add: last_conv_nth)
  have b: "?es \<le> additional - filename" using spec_extension_start_le [of ?f] len by simp
  have one: "?es = 1" if "additional - filename = 1"
    using that len ne by (simp add: spec_extension_start_def)
  have dot: "if ?f = [0x2E, 0x2E] then filename + ?es = additional else filename + ?es = additional - 1"
    if "2 \<le> additional - filename \<and> mem ! (additional - 1) = 0x2E"
    using that len ne lst by (auto simp add: spec_extension_start_def)
  have ex_iff: "(\<exists>i. filename < i \<and> i < additional \<and> mem ! i = 0x2E)
                \<longleftrightarrow> (\<exists>i. 0 < i \<and> i < length ?f \<and> ?f ! i = 0x2E)"
  proof
    assume "\<exists>i. filename < i \<and> i < additional \<and> mem ! i = 0x2E"
    then obtain i where i: "filename < i" "i < additional" "mem ! i = 0x2E" by blast
    then have "0 < i - filename \<and> i - filename < length ?f \<and> ?f ! (i - filename) = 0x2E"
      using nth [of i] len by auto
    then show "\<exists>i. 0 < i \<and> i < length ?f \<and> ?f ! i = 0x2E" by blast
  next
    assume "\<exists>i. 0 < i \<and> i < length ?f \<and> ?f ! i = 0x2E"
    then obtain i where i: "0 < i" "i < length ?f" "?f ! i = 0x2E" by blast
    then have "filename < filename + i \<and> filename + i < additional \<and> mem ! (filename + i) = 0x2E"
      using nth [of "filename + i"] len by auto
    then show "\<exists>i. filename < i \<and> i < additional \<and> mem ! i = 0x2E" by blast
  qed
  have scan: "if \<exists>i. filename < i \<and> i < additional \<and> mem ! i = 0x2E
                  then filename < filename + ?es \<and> filename + ?es < additional \<and> mem ! (filename + ?es) = 0x2E
                       \<and> (\<forall>j. filename + ?es < j \<and> j < additional \<longrightarrow> mem ! j \<noteq> 0x2E)
                  else filename + ?es = additional"
    if h: "2 \<le> additional - filename \<and> mem ! (additional - 1) \<noteq> 0x2E"
  proof (cases "\<exists>i. filename < i \<and> i < additional \<and> mem ! i = 0x2E")
    case True
    then have "\<exists>i. 0 < i \<and> i < length ?f \<and> ?f ! i = 0x2E" using ex_iff by simp
    then have s: "0 < ?es \<and> ?es < length ?f \<and> ?f ! ?es = 0x2E
                  \<and> (\<forall>j. ?es < j \<and> j < length ?f \<longrightarrow> ?f ! j \<noteq> 0x2E)"
      using h len lst by (intro spec_extension_start_scan(1)) auto
    have "filename + ?es < additional" using s len by linarith
    then have "mem ! (filename + ?es) = 0x2E" using s nth [of "filename + ?es"] by simp
    moreover have "mem ! j \<noteq> 0x2E" if "filename + ?es < j \<and> j < additional" for j
    proof -
      have "?es < j - filename \<and> j - filename < length ?f" using that len by auto
      then have "?f ! (j - filename) \<noteq> 0x2E" using s by blast
      then show ?thesis using that nth [of j] by simp
    qed
    ultimately show ?thesis using True s len by auto
  next
    case False
    then have "\<not> (\<exists>i. 0 < i \<and> i < length ?f \<and> ?f ! i = 0x2E)" using ex_iff by simp
    then have "?es = length ?f"
      using h len lst by (intro spec_extension_start_scan(2)) auto
    then show ?thesis using False len assms by simp
  qed
  have general: "\<exists>e. utf8_find_extension mem filename additional = Some e
            \<and> filename \<le> e \<and> e \<le> additional
            \<and> (additional - filename = 1 \<longrightarrow> e = additional)
            \<and> (2 \<le> additional - filename \<and> mem ! (additional - 1) = 0x2E \<longrightarrow>
                 (if span mem filename additional = [0x2E, 0x2E] then e = additional
                  else e = additional - 1))
            \<and> (2 \<le> additional - filename \<and> mem ! (additional - 1) \<noteq> 0x2E \<longrightarrow>
                 (if \<exists>i. filename < i \<and> i < additional \<and> mem ! i = 0x2E
                  then filename < e \<and> e < additional \<and> mem ! e = 0x2E
                       \<and> (\<forall>j. e < j \<and> j < additional \<longrightarrow> mem ! j \<noteq> 0x2E)
                  else e = additional))"
  proof (intro exI [of _ "filename + ?es"] conjI impI)
    show "utf8_find_extension mem filename additional = Some (filename + ?es)"
      using le assms(2) by (rule utf8_find_extension_span)
    show "filename \<le> filename + ?es" by simp
    show "filename + ?es \<le> additional" using b assms by simp
    show "filename + ?es = additional" if "additional - filename = 1"
      using one [OF that] that by simp
    show "if span mem filename additional = [0x2E, 0x2E] then filename + ?es = additional
          else filename + ?es = additional - 1"
      if "2 \<le> additional - filename \<and> mem ! (additional - 1) = 0x2E"
      using that by (rule dot)
    show "if \<exists>i. filename < i \<and> i < additional \<and> mem ! i = 0x2E
          then filename < filename + ?es \<and> filename + ?es < additional \<and> mem ! (filename + ?es) = 0x2E
               \<and> (\<forall>j. filename + ?es < j \<and> j < additional \<longrightarrow> mem ! j \<noteq> 0x2E)
          else filename + ?es = additional"
      if "2 \<le> additional - filename \<and> mem ! (additional - 1) \<noteq> 0x2E"
      using that by (rule scan)
  qed
  have examples:
    "on_path utf8_stem (bytes ''archive.tar.gz'') = Some (bytes ''archive.tar'')"
    "on_path utf8_extension (bytes ''archive.tar.gz'') = Some (bytes ''.gz'')"
    "on_path utf8_stem (bytes ''..'') = Some (bytes ''..'')"
    "on_path utf8_extension (bytes ''..'') = Some (bytes [])"
    "on_path utf8_stem (bytes ''.bashrc'') = Some (bytes ''.bashrc'')"
    "on_path utf8_extension (bytes ''.bashrc'') = Some (bytes [])"
    "on_path utf8_stem (bytes ''x.'') = Some (bytes ''x'')"
    "on_path utf8_extension (bytes ''x.'') = Some (bytes ''.'')"
    by (simp_all add: utf8_eval)
  show ?thesis using general examples by (intro conjI)
qed

theorem find_extension_rules_witness:
  "(0::nat) < 14 \<and> 14 \<le> length (bytes ''archive.tar.gz'')
   \<and> utf8_find_extension (bytes ''archive.tar.gz'') 0 14 = Some 11
   \<and> bytes ''archive.tar.gz'' ! 11 = 0x2E
   \<and> (\<exists>i. 0 < i \<and> i < 14 \<and> bytes ''archive.tar.gz'' ! i = 0x2E)"
proof -
  have "bytes ''archive.tar.gz'' ! 7 = 0x2E" by (simp add: bytes_def)
  then have "\<exists>i. 0 < i \<and> i < 14 \<and> bytes ''archive.tar.gz'' ! i = 0x2E"
    by (intro exI [of _ 7]) simp
  then show ?thesis
    using find_extension_rules [of 0 14 "bytes ''archive.tar.gz''"]
    by (simp add: utf8_eval)
qed

text \<open>
  C3. For every path, \<^verbatim>\<open>parent_path\<close> is the prefix \<open>[First, t2)\<close> reached in two passes
  that never go below the start \<open>r\<close> of the relative-path: from \<open>Last\<close> down to \<open>t1\<close> over
  units that are not slashes (the final filename), then from \<open>t1\<close> down to \<open>t2\<close> over every
  slash. The two examples of the specification, a path that ends in a run of separators of
  both kinds and a drive path, give "/cat/dog" and the drive with its first directory.
\<close>

theorem parent_path_two_passes:
  assumes "First \<le> Last" and "Last \<le> length mem"
  shows "(\<exists>r t1 t2.
            utf8_find_relative_path mem First Last = Some r
          \<and> utf8_parent_path mem \<lparr>sv_data = First, sv_size = Last - First\<rparr> =
              Some \<lparr>sv_data = First, sv_size = t2 - First\<rparr>
          \<and> First \<le> r \<and> r \<le> t2 \<and> t2 \<le> t1 \<and> t1 \<le> Last
          \<and> (\<forall>i. t1 \<le> i \<and> i < Last \<longrightarrow> \<not> utf8_is_slash (mem ! i))
          \<and> (t1 = r \<or> utf8_is_slash (mem ! (t1 - 1)))
          \<and> (\<forall>i. t2 \<le> i \<and> i < t1 \<longrightarrow> utf8_is_slash (mem ! i))
          \<and> (t2 = r \<or> \<not> utf8_is_slash (mem ! (t2 - 1))))
       \<and> on_path utf8_parent_path (bytes (''/cat/dog/'' @ [CHR 0x5C] @ ''//'' @ [CHR 0x5C]))
            = Some (bytes ''/cat/dog'')
       \<and> on_path utf8_parent_path (bytes (''C:'' @ [CHR 0x5C] @ ''foo'' @ [CHR 0x5C] @ ''bar''))
            = Some (bytes (''C:'' @ [CHR 0x5C] @ ''foo''))"
proof -
  let ?s = "span mem First Last"
  let ?r = "spec_relative_start ?s" and ?f = "spec_filename_start ?s" and ?p = "spec_parent_end ?s"
  have len: "length ?s = Last - First" using assms by (simp add: length_span)
  have b0: "?r \<le> ?p" "?p \<le> ?f" "?f \<le> Last - First"
    using spec_parent_end_bounds [of ?s] spec_filename_start_bounds [of ?s] len by simp_all
  then have b: "?r \<le> ?p" "?p \<le> ?f" "?f \<le> Last - First" "First + ?f \<le> Last"
    "First + ?r \<le> Last" "First + ?p \<le> Last"
    using assms by simp_all
  have nth: "mem ! i = ?s ! (i - First)" if "First \<le> i" "i < Last" for i
    using that assms by (intro mem_nth_span)
  have ns: "\<not> utf8_is_slash (mem ! i)" if "First + ?f \<le> i \<and> i < Last" for i
  proof -
    have "\<not> utf8_is_slash (?s ! (i - First))"
      using that len by (intro spec_filename_start_props(1)) auto
    then show ?thesis using that nth [of i] by simp
  qed
  have sl: "utf8_is_slash (mem ! (First + ?f - 1))" if "?r < ?f"
  proof -
    have "utf8_is_slash (?s ! (?f - 1))" using that by (rule spec_filename_start_props(2))
    moreover have "First + ?f - 1 - First = ?f - 1" using that by simp
    ultimately show ?thesis using that b nth [of "First + ?f - 1"] by simp
  qed
  have psl: "utf8_is_slash (mem ! i)" if "First + ?p \<le> i \<and> i < First + ?f" for i
  proof -
    have "utf8_is_slash (?s ! (i - First))"
      using that by (intro spec_parent_end_props(1)) auto
    then show ?thesis using that b nth [of i] by simp
  qed
  have pns: "\<not> utf8_is_slash (mem ! (First + ?p - 1))" if "?r < ?p"
  proof -
    have "\<not> utf8_is_slash (?s ! (?p - 1))" using that by (rule spec_parent_end_props(2))
    moreover have "First + ?p - 1 - First = ?p - 1" using that by simp
    ultimately show ?thesis using that b nth [of "First + ?p - 1"] by simp
  qed
  have t1: "First + ?f = First + ?r \<or> utf8_is_slash (mem ! (First + ?f - 1))"
    using sl b by (cases "?r < ?f") auto
  have t2: "First + ?p = First + ?r \<or> \<not> utf8_is_slash (mem ! (First + ?p - 1))"
    using pns b by (cases "?r < ?p") auto
  have pp: "utf8_parent_path mem \<lparr>sv_data = First, sv_size = Last - First\<rparr> =
              Some \<lparr>sv_data = First, sv_size = First + ?p - First\<rparr>"
    using utf8_parent_path_span [OF assms] by simp
  have general: "\<exists>r t1 t2.
            utf8_find_relative_path mem First Last = Some r
          \<and> utf8_parent_path mem \<lparr>sv_data = First, sv_size = Last - First\<rparr> =
              Some \<lparr>sv_data = First, sv_size = t2 - First\<rparr>
          \<and> First \<le> r \<and> r \<le> t2 \<and> t2 \<le> t1 \<and> t1 \<le> Last
          \<and> (\<forall>i. t1 \<le> i \<and> i < Last \<longrightarrow> \<not> utf8_is_slash (mem ! i))
          \<and> (t1 = r \<or> utf8_is_slash (mem ! (t1 - 1)))
          \<and> (\<forall>i. t2 \<le> i \<and> i < t1 \<longrightarrow> utf8_is_slash (mem ! i))
          \<and> (t2 = r \<or> \<not> utf8_is_slash (mem ! (t2 - 1)))"
    using utf8_find_relative_path_span [OF assms] pp b ns psl t1 t2
    by (intro exI [of _ "First + ?r"] exI [of _ "First + ?f"] exI [of _ "First + ?p"]) simp
  have ex1: "on_path utf8_parent_path (bytes (''/cat/dog/'' @ [CHR 0x5C] @ ''//'' @ [CHR 0x5C]))
            = Some (bytes ''/cat/dog'')"
    by (simp add: utf8_eval)
  have ex2: "on_path utf8_parent_path (bytes (''C:'' @ [CHR 0x5C] @ ''foo'' @ [CHR 0x5C] @ ''bar''))
            = Some (bytes (''C:'' @ [CHR 0x5C] @ ''foo''))"
    by (simp add: utf8_eval)
  show ?thesis using general ex1 ex2 by (intro conjI)
qed

theorem parent_path_two_passes_witness:
  "(0::nat) \<le> 8 \<and> 8 \<le> length (bytes ''/cat/dog'')
   \<and> utf8_find_relative_path (bytes ''/cat/dog'') 0 8 = Some 1
   \<and> utf8_retreat_filename (bytes ''/cat/dog'') 1 8 = Some 5
   \<and> utf8_retreat_slashes (bytes ''/cat/dog'') 1 5 = Some 4
   \<and> utf8_parent_path (bytes ''/cat/dog'') \<lparr>sv_data = 0, sv_size = 8 - 0\<rparr> =
       Some \<lparr>sv_data = 0, sv_size = 4\<rparr>"
  using parent_path_two_passes [of 0 8 "bytes ''/cat/dog''"]
  by (simp add: utf8_eval)

text \<open>
  C6. For every span \<open>[First, Last)\<close> of the storage, \<^verbatim>\<open>find_relative_path\<close> returns
  the first position \<open>r\<close> at or after the end \<open>e\<close> of the root-name whose unit is not a slash
  (\<open>Last\<close> when only slashes remain), every unit from \<open>e\<close> up to \<open>r\<close> is a slash, and the
  root-name, those separators and the relative-path put together are the path.
\<close>

theorem relative_path_partition:
  assumes "First \<le> Last" and "Last \<le> length mem"
  shows "\<exists>e r rn rp.
           utf8_find_root_name_end mem First Last = Some e
         \<and> utf8_find_relative_path mem First Last = Some r
         \<and> First \<le> e \<and> e \<le> r \<and> r \<le> Last
         \<and> (\<forall>i. e \<le> i \<and> i < r \<longrightarrow> utf8_is_slash (mem ! i))
         \<and> (r < Last \<longrightarrow> \<not> utf8_is_slash (mem ! r))
         \<and> utf8_root_name mem \<lparr>sv_data = First, sv_size = Last - First\<rparr> = Some rn
         \<and> utf8_relative_path mem \<lparr>sv_data = First, sv_size = Last - First\<rparr> = Some rp
         \<and> sv_contents mem rn @ span mem e r @ sv_contents mem rp = span mem First Last"
proof -
  let ?s = "span mem First Last"
  let ?e = "spec_root_name_end ?s" and ?r = "spec_relative_start ?s"
  have len: "length ?s = Last - First" using assms by (simp add: length_span)
  have b: "?e \<le> ?r" "?r \<le> Last - First"
    using spec_relative_start_bounds [of ?s] len by simp_all
  have sl: "utf8_is_slash (mem ! i)" if "First + ?e \<le> i \<and> i < First + ?r" for i
  proof -
    have "utf8_is_slash (?s ! (i - First))"
      using that by (intro spec_relative_start_props(1)) auto
    moreover have "First \<le> i" "i < Last" using that b assms by linarith+
    ultimately show ?thesis using assms mem_nth_span [of First i Last mem] by simp
  qed
  have ns: "\<not> utf8_is_slash (mem ! (First + ?r))" if "First + ?r < Last"
  proof -
    have "\<not> utf8_is_slash (?s ! ?r)" using that len by (intro spec_relative_start_props(2)) simp
    then show ?thesis using that assms span_nth [of ?r Last First mem] by simp
  qed
  have c1: "span mem First (First + ?e) = take ?e ?s"
    using span_sub [of 0 ?e Last First mem] b assms by simp
  have c2: "span mem (First + ?e) (First + ?r) = take (?r - ?e) (drop ?e ?s)"
    using b assms by (intro span_sub) auto
  have c3: "span mem (First + ?r) (First + ?r + (Last - First - ?r)) = drop ?r ?s"
    using span_drop [of ?r Last First mem] b assms by simp
  have cat: "sv_contents mem \<lparr>sv_data = First, sv_size = ?e\<rparr> @ span mem (First + ?e) (First + ?r)
        @ sv_contents mem \<lparr>sv_data = First + ?r, sv_size = Last - First - ?r\<rparr> = ?s"
    unfolding sv_contents_span c1 c2 c3 using b(1) by (rule take_mid_drop)
  show ?thesis
    using utf8_find_root_name_end_span [OF assms] utf8_find_relative_path_span [OF assms]
      utf8_root_name_span [OF assms] utf8_relative_path_span [OF assms] b sl ns cat assms
    by (intro exI [of _ "First + ?e"] exI [of _ "First + ?r"]
        exI [of _ "\<lparr>sv_data = First, sv_size = ?e\<rparr>"]
        exI [of _ "\<lparr>sv_data = First + ?r, sv_size = Last - First - ?r\<rparr>"]) simp
qed

theorem relative_path_partition_witness:
  "(0::nat) \<le> 14 \<and> 14 \<le> length (bytes ''//server/share'')
   \<and> utf8_find_root_name_end (bytes ''//server/share'') 0 14 = Some 8
   \<and> utf8_find_relative_path (bytes ''//server/share'') 0 14 = Some 9
   \<and> on_path utf8_root_name (bytes ''//server/share'') = Some (bytes ''//server'')
   \<and> span (bytes ''//server/share'') 8 9 = bytes ''/''
   \<and> on_path utf8_relative_path (bytes ''//server/share'') = Some (bytes ''share'')"
  using relative_path_partition [of 0 14 "bytes ''//server/share''"]
  by (simp add: utf8_eval span_def)

text \<open>
  C7. For every view of the storage, each of \<^verbatim>\<open>root_name\<close>, \<^verbatim>\<open>relative_path\<close>,
  \<^verbatim>\<open>parent_path\<close>, \<^verbatim>\<open>filename\<close>, \<^verbatim>\<open>stem\<close> and \<^verbatim>\<open>extension\<close> returns a view
  inside the input: it starts at or after the start of the input and ends at or before its end.
  The storage is an argument that no function returns: none of them can change it.
\<close>

theorem component_views_within_input:
  assumes "sv_valid mem path"
  shows "\<forall>f \<in> set [utf8_root_name, utf8_relative_path, utf8_parent_path, utf8_filename,
                      utf8_stem, utf8_extension].
           \<exists>v. f mem path = Some v
              \<and> sv_data path \<le> sv_data v
              \<and> sv_data v + sv_size v \<le> sv_data path + sv_size path"
proof -
  let ?F = "sv_data path" and ?L = "sv_data path + sv_size path"
  let ?s = "span mem ?F ?L"
  have v: "?F \<le> ?L" "?L \<le> length mem" using assms by (simp_all add: sv_valid_def)
  have p: "\<lparr>sv_data = sv_data path, sv_size = sv_size path\<rparr> = path" by simp
  have len: "length ?s = sv_size path" using v by (simp add: length_span)
  have 1: "spec_root_name_end ?s \<le> sv_size path" using spec_root_name_end_le [of ?s] len by simp
  have 2: "spec_relative_start ?s \<le> sv_size path"
    using spec_relative_start_bounds(2) [of ?s] len by simp
  have 3: "spec_parent_end ?s \<le> sv_size path"
    using spec_parent_end_bounds(2) [of ?s] spec_filename_start_bounds(2) [of ?s] len by simp
  have 4: "spec_filename_start ?s \<le> sv_size path"
    using spec_filename_start_bounds(2) [of ?s] len by simp
  have 5: "spec_filename_start ?s + length (spec_stem_part ?s) \<le> sv_size path"
    using length_spec_stem_part [of ?s] len by simp
  have 6: "spec_extension_start (spec_stem_part ?s) \<le> length (spec_stem_part ?s)"
    by (rule spec_extension_start_le)
  have a: "utf8_root_name mem path = Some \<lparr>sv_data = ?F, sv_size = spec_root_name_end ?s\<rparr>"
    using utf8_root_name_span [OF v] by (simp add: p)
  have b: "utf8_relative_path mem path = Some \<lparr>sv_data = ?F + spec_relative_start ?s,
                 sv_size = ?L - ?F - spec_relative_start ?s\<rparr>"
    using utf8_relative_path_span [OF v] by (simp add: p)
  have c: "utf8_parent_path mem path = Some \<lparr>sv_data = ?F, sv_size = spec_parent_end ?s\<rparr>"
    using utf8_parent_path_span [OF v] by (simp add: p)
  have d: "utf8_filename mem path = Some \<lparr>sv_data = ?F + spec_filename_start ?s,
                 sv_size = ?L - ?F - spec_filename_start ?s\<rparr>"
    using utf8_filename_span [OF v] by (simp add: p)
  have e: "utf8_stem mem path = Some \<lparr>sv_data = ?F + spec_filename_start ?s,
                 sv_size = spec_extension_start (spec_stem_part ?s)\<rparr>"
    using utf8_stem_span [OF v] by (simp add: p)
  have f: "utf8_extension mem path = Some \<lparr>sv_data = ?F + spec_filename_start ?s
                             + spec_extension_start (spec_stem_part ?s),
                 sv_size = length (spec_stem_part ?s) - spec_extension_start (spec_stem_part ?s)\<rparr>"
    using utf8_extension_span [OF v] by (simp add: p)
  show ?thesis using 1 2 3 4 5 6 by (simp add: a b c d e f)
qed

theorem component_views_within_input_witness:
  "sv_valid (bytes ''C:/a/b.txt'') \<lparr>sv_data = 0, sv_size = 10\<rparr>
   \<and> utf8_root_name (bytes ''C:/a/b.txt'') \<lparr>sv_data = 0, sv_size = 10\<rparr> = Some \<lparr>sv_data = 0, sv_size = 2\<rparr>
   \<and> utf8_relative_path (bytes ''C:/a/b.txt'') \<lparr>sv_data = 0, sv_size = 10\<rparr> = Some \<lparr>sv_data = 3, sv_size = 7\<rparr>
   \<and> utf8_parent_path (bytes ''C:/a/b.txt'') \<lparr>sv_data = 0, sv_size = 10\<rparr> = Some \<lparr>sv_data = 0, sv_size = 4\<rparr>
   \<and> utf8_filename (bytes ''C:/a/b.txt'') \<lparr>sv_data = 0, sv_size = 10\<rparr> = Some \<lparr>sv_data = 5, sv_size = 5\<rparr>
   \<and> utf8_stem (bytes ''C:/a/b.txt'') \<lparr>sv_data = 0, sv_size = 10\<rparr> = Some \<lparr>sv_data = 5, sv_size = 1\<rparr>
   \<and> utf8_extension (bytes ''C:/a/b.txt'') \<lparr>sv_data = 0, sv_size = 10\<rparr> = Some \<lparr>sv_data = 6, sv_size = 4\<rparr>"
  using component_views_within_input [of "bytes ''C:/a/b.txt''" "\<lparr>sv_data = 0, sv_size = 10\<rparr>"]
  by (simp add: utf8_eval sv_valid_def)

text \<open>
  C9. For every span \<open>[First, Last)\<close> of the storage, \<^verbatim>\<open>find_filename\<close> returns the
  position \<open>f\<close> reached by retreating from \<open>Last\<close> while the position is above the start
  \<open>r\<close> of the relative-path and the unit before it is not a slash; \<^verbatim>\<open>filename\<close> is the view
  from \<open>f\<close> to \<open>Last\<close>. It is empty exactly when nothing follows the root-name, when only
  separators follow it, or when the path ends in a separator: the filename of "/cat/dog/" is
  empty, that of the drive path with the directories foo and bar is "bar".
\<close>

theorem find_filename_retreat:
  assumes "First \<le> Last" and "Last \<le> length mem"
  shows "(\<exists>e r f.
           utf8_find_root_name_end mem First Last = Some e
         \<and> utf8_find_relative_path mem First Last = Some r
         \<and> utf8_find_filename mem First Last = Some f
         \<and> r \<le> f \<and> f \<le> Last
         \<and> (\<forall>i. f \<le> i \<and> i < Last \<longrightarrow> \<not> utf8_is_slash (mem ! i))
         \<and> (f = r \<or> utf8_is_slash (mem ! (f - 1)))
         \<and> utf8_filename mem \<lparr>sv_data = First, sv_size = Last - First\<rparr> =
             Some \<lparr>sv_data = f, sv_size = Last - f\<rparr>
         \<and> (Last - f = 0 \<longleftrightarrow>
               e = Last \<or> (\<forall>i. e \<le> i \<and> i < Last \<longrightarrow> utf8_is_slash (mem ! i))
               \<or> (First < Last \<and> utf8_is_slash (mem ! (Last - 1)))))
       \<and> on_path utf8_filename (bytes ''/cat/dog/'') = Some (bytes [])
       \<and> on_path utf8_filename (bytes (''C:'' @ [CHR 0x5C] @ ''foo'' @ [CHR 0x5C] @ ''bar''))
            = Some (bytes ''bar'')"
proof -
  let ?s = "span mem First Last"
  let ?e = "spec_root_name_end ?s" and ?r = "spec_relative_start ?s" and ?f = "spec_filename_start ?s"
  have len: "length ?s = Last - First" using assms by (simp add: length_span)
  have b0: "?e \<le> ?r" "?r \<le> ?f" "?f \<le> Last - First"
    using spec_relative_start_bounds [of ?s] spec_filename_start_bounds [of ?s] len by simp_all
  then have b: "?e \<le> ?r" "?r \<le> ?f" "?f \<le> Last - First" "First + ?f \<le> Last"
    "First + ?r \<le> Last" "First + ?e \<le> Last"
    using assms by simp_all
  have nth: "mem ! i = ?s ! (i - First)" if "First \<le> i" "i < Last" for i
    using that assms by (intro mem_nth_span)
  have ns: "\<not> utf8_is_slash (mem ! i)" if "First + ?f \<le> i \<and> i < Last" for i
  proof -
    have "\<not> utf8_is_slash (?s ! (i - First))"
      using that len by (intro spec_filename_start_props(1)) auto
    then show ?thesis using that nth [of i] by simp
  qed
  have sl: "utf8_is_slash (mem ! (First + ?f - 1))" if "?r < ?f"
  proof -
    have "utf8_is_slash (?s ! (?f - 1))" using that by (rule spec_filename_start_props(2))
    moreover have "First + ?f - 1 - First = ?f - 1" using that by simp
    ultimately show ?thesis using that b nth [of "First + ?f - 1"] by simp
  qed
  have rsl: "utf8_is_slash (mem ! i)" if "First + ?e \<le> i" "i < First + ?r" for i
  proof -
    have "utf8_is_slash (?s ! (i - First))"
      using that by (intro spec_relative_start_props(1)) auto
    then show ?thesis using that b nth [of i] by simp
  qed
  have rns: "\<not> utf8_is_slash (mem ! (First + ?r))" if "First + ?r < Last"
  proof -
    have "\<not> utf8_is_slash (?s ! ?r)" using that len by (intro spec_relative_start_props(2)) simp
    then show ?thesis using that nth [of "First + ?r"] by simp
  qed
  have empty: "Last - (First + ?f) = 0 \<longleftrightarrow>
         First + ?e = Last \<or> (\<forall>i. First + ?e \<le> i \<and> i < Last \<longrightarrow> utf8_is_slash (mem ! i))
         \<or> (First < Last \<and> utf8_is_slash (mem ! (Last - 1)))"
  proof
    assume "Last - (First + ?f) = 0"
    then have f: "First + ?f = Last" using b by simp
    show "First + ?e = Last \<or> (\<forall>i. First + ?e \<le> i \<and> i < Last \<longrightarrow> utf8_is_slash (mem ! i))
         \<or> (First < Last \<and> utf8_is_slash (mem ! (Last - 1)))"
    proof (cases "?r < ?f")
      case True
      then show ?thesis using sl f by auto
    next
      case False
      then have "First + ?r = Last" using f b by simp
      then show ?thesis using rsl by auto
    qed
  next
    assume a: "First + ?e = Last \<or> (\<forall>i. First + ?e \<le> i \<and> i < Last \<longrightarrow> utf8_is_slash (mem ! i))
         \<or> (First < Last \<and> utf8_is_slash (mem ! (Last - 1)))"
    have "First + ?f = Last"
    proof (rule ccontr)
      assume n: "First + ?f \<noteq> Last"
      then have lt: "First + ?f < Last" using b by simp
      then have last: "\<not> utf8_is_slash (mem ! (Last - 1))" using ns [of "Last - 1"] by simp
      have "First + ?r < Last" using lt b by simp
      then have "\<not> utf8_is_slash (mem ! (First + ?r))" by (rule rns)
      moreover have "First + ?e \<le> First + ?r" "First + ?r < Last" "First + ?e \<noteq> Last"
        using b lt by auto
      ultimately show False using a last by blast
    qed
    then show "Last - (First + ?f) = 0" by simp
  qed
  have fr: "First + ?f = First + ?r \<or> utf8_is_slash (mem ! (First + ?f - 1))"
    using sl b by (cases "?r < ?f") auto
  have fn: "utf8_filename mem \<lparr>sv_data = First, sv_size = Last - First\<rparr> =
             Some \<lparr>sv_data = First + ?f, sv_size = Last - (First + ?f)\<rparr>"
    using utf8_filename_span [OF assms] by simp
  have general: "\<exists>e r f.
           utf8_find_root_name_end mem First Last = Some e
         \<and> utf8_find_relative_path mem First Last = Some r
         \<and> utf8_find_filename mem First Last = Some f
         \<and> r \<le> f \<and> f \<le> Last
         \<and> (\<forall>i. f \<le> i \<and> i < Last \<longrightarrow> \<not> utf8_is_slash (mem ! i))
         \<and> (f = r \<or> utf8_is_slash (mem ! (f - 1)))
         \<and> utf8_filename mem \<lparr>sv_data = First, sv_size = Last - First\<rparr> =
             Some \<lparr>sv_data = f, sv_size = Last - f\<rparr>
         \<and> (Last - f = 0 \<longleftrightarrow>
               e = Last \<or> (\<forall>i. e \<le> i \<and> i < Last \<longrightarrow> utf8_is_slash (mem ! i))
               \<or> (First < Last \<and> utf8_is_slash (mem ! (Last - 1))))"
    using utf8_find_root_name_end_span [OF assms] utf8_find_relative_path_span [OF assms]
      utf8_find_filename_span [OF assms] fn b ns fr empty
    by (intro exI [of _ "First + ?e"] exI [of _ "First + ?r"] exI [of _ "First + ?f"]) simp
  have ex1: "on_path utf8_filename (bytes ''/cat/dog/'') = Some (bytes [])"
    by (simp add: utf8_eval)
  have ex2: "on_path utf8_filename (bytes (''C:'' @ [CHR 0x5C] @ ''foo'' @ [CHR 0x5C] @ ''bar''))
            = Some (bytes ''bar'')"
    by (simp add: utf8_eval)
  show ?thesis using general ex1 ex2 by (intro conjI)
qed

theorem find_filename_retreat_witness:
  "(0::nat) \<le> 9 \<and> 9 \<le> length (bytes ''/cat/dog/'')
   \<and> utf8_find_relative_path (bytes ''/cat/dog/'') 0 9 = Some 1
   \<and> utf8_find_filename (bytes ''/cat/dog/'') 0 9 = Some 9
   \<and> utf8_is_slash (bytes ''/cat/dog/'' ! (9 - 1))
   \<and> utf8_filename (bytes ''/cat/dog/'') \<lparr>sv_data = 0, sv_size = 9 - 0\<rparr> =
       Some \<lparr>sv_data = 9, sv_size = 0\<rparr>"
  using find_filename_retreat [of 0 9 "bytes ''/cat/dog/''"]
  by (simp add: utf8_eval)

text \<open>
  C5, as stated: no function ever returns the alternate-data-stream suffix. This fails:
  \<^verbatim>\<open>filename\<close> returns the filename whole, the suffix included, and for a path that
  starts with a colon what it returns is that suffix itself.
\<close>

theorem filename_returns_stream_suffix:
  "on_path utf8_filename (bytes ''name:stream'') = Some (bytes ''name:stream'')
   \<and> ads_suffix (bytes ''name:stream'') = bytes '':stream''
   \<and> on_path utf8_filename (bytes '':stream'') = Some (ads_suffix (bytes '':stream''))
   \<and> ads_suffix (bytes '':stream'') = bytes '':stream''"
  by (simp add: utf8_eval ads_suffix_def)

text \<open>
  C5, amended. For every path, the stem followed by the extension is the filename with its
  alternate-data-stream suffix removed, and neither the stem nor the extension returns any
  part of that suffix: the stem starts where the filename starts, the extension starts where
  the stem ends, and the extension ends at the first colon of the filename, or at the end of
  the filename when it has no colon. The stem of "name:stream" is "name" and its extension is
  empty.
\<close>

theorem stem_extension_concat:
  assumes "sv_valid mem path"
  shows "(\<exists>fn st ex.
            utf8_filename mem path = Some fn
          \<and> utf8_stem mem path = Some st
          \<and> utf8_extension mem path = Some ex
          \<and> sv_contents mem st @ sv_contents mem ex = without_ads (sv_contents mem fn)
          \<and> sv_data st = sv_data fn
          \<and> sv_data ex = sv_data st + sv_size st
          \<and> sv_data ex + sv_size ex = sv_data fn + length (without_ads (sv_contents mem fn))
          \<and> sv_data ex + sv_size ex \<le> sv_data fn + sv_size fn
          \<and> (\<forall>i. sv_data fn \<le> i \<and> i < sv_data ex + sv_size ex \<longrightarrow> mem ! i \<noteq> 0x3A)
          \<and> (sv_data ex + sv_size ex < sv_data fn + sv_size fn \<longrightarrow>
                mem ! (sv_data ex + sv_size ex) = 0x3A)
          \<and> 0x3A \<notin> set (sv_contents mem st)
          \<and> 0x3A \<notin> set (sv_contents mem ex))
       \<and> on_path utf8_stem (bytes ''name:stream'') = Some (bytes ''name'')
       \<and> on_path utf8_extension (bytes ''name:stream'') = Some (bytes [])"
proof -
  let ?F = "sv_data path" and ?L = "sv_data path + sv_size path"
  let ?s = "span mem ?F ?L"
  let ?fs = "spec_filename_start ?s"
  let ?tw = "spec_stem_part ?s"
  let ?es = "spec_extension_start ?tw"
  let ?fn = "\<lparr>sv_data = ?F + ?fs, sv_size = ?L - ?F - ?fs\<rparr>"
  let ?st = "\<lparr>sv_data = ?F + ?fs, sv_size = ?es\<rparr>"
  let ?ex = "\<lparr>sv_data = ?F + ?fs + ?es, sv_size = length ?tw - ?es\<rparr>"
  have v: "?F \<le> ?L" "?L \<le> length mem" using assms by (simp_all add: sv_valid_def)
  have p: "\<lparr>sv_data = sv_data path, sv_size = sv_size path\<rparr> = path" by simp
  have len: "length ?s = sv_size path" using v by (simp add: length_span)
  have b: "?fs \<le> sv_size path" "?fs + length ?tw \<le> sv_size path" "?es \<le> length ?tw"
    using spec_filename_start_bounds(2) [of ?s] length_spec_stem_part [of ?s]
      spec_extension_start_le [of ?tw] len by simp_all
  have fn: "utf8_filename mem path = Some ?fn"
    using utf8_filename_span [OF v] by (simp add: p)
  have st: "utf8_stem mem path = Some ?st"
    using utf8_stem_span [OF v] by (simp add: p)
  have ex: "utf8_extension mem path = Some ?ex"
    using utf8_extension_span [OF v] by (simp add: p)
  have cfn: "sv_contents mem ?fn = drop ?fs ?s"
    using span_drop [of ?fs ?L ?F mem] b v by (simp add: sv_contents_span)
  have tw: "?tw = take (length ?tw) (drop ?fs ?s)"
    by (simp add: spec_stem_part_def flip: takeWhile_eq_take)
  have "span mem (?F + ?fs) (?F + (?fs + ?es)) = take (?fs + ?es - ?fs) (drop ?fs ?s)"
    using b v by (intro span_sub) auto
  also have "\<dots> = take ?es ?tw" using b(3) by (subst (2) tw) (simp add: min_def)
  finally have cst: "sv_contents mem ?st = take ?es ?tw"
    by (simp add: sv_contents_span add.assoc)
  have "span mem (?F + (?fs + ?es)) (?F + (?fs + length ?tw))
          = take (?fs + length ?tw - (?fs + ?es)) (drop (?fs + ?es) ?s)"
    using b v by (intro span_sub) auto
  also have "\<dots> = drop ?es ?tw"
    by (subst (3) tw) (simp add: drop_take add.commute)
  finally have cex: "sv_contents mem ?ex = drop ?es ?tw"
    using b(3) by (simp add: sv_contents_span add.assoc)
  have cat: "sv_contents mem ?st @ sv_contents mem ?ex = without_ads (sv_contents mem ?fn)"
    unfolding cst cex cfn by (simp add: without_ads_def spec_stem_part_def)
  have nc: "0x3A \<notin> set ?tw"
    using set_takeWhileD [of "0x3A" "\<lambda>c. c \<noteq> 0x3A" "drop ?fs ?s"]
    by (auto simp: spec_stem_part_def)
  have nst: "0x3A \<notin> set (sv_contents mem ?st)"
    unfolding cst using nc set_take_subset [of ?es ?tw] by blast
  have nex: "0x3A \<notin> set (sv_contents mem ?ex)"
    unfolding cex using nc set_drop_subset [of ?es ?tw] by blast
  have wa: "without_ads (sv_contents mem ?fn) = ?tw"
    unfolding cfn by (simp add: without_ads_def spec_stem_part_def)
  have nth: "mem ! i = ?s ! (i - ?F)" if "?F \<le> i" "i < ?L" for i
    using that v by (intro mem_nth_span)
  have before: "mem ! i \<noteq> 0x3A" if "?F + ?fs \<le> i \<and> i < ?F + ?fs + length ?tw" for i
  proof -
    have "i - ?F - ?fs < length (takeWhile (\<lambda>c. c \<noteq> 0x3A) (drop ?fs ?s))"
      using that by (simp add: spec_stem_part_def) linarith
    then have "drop ?fs ?s ! (i - ?F - ?fs) \<noteq> 0x3A" by (rule takeWhile_all)
    moreover have "drop ?fs ?s ! (i - ?F - ?fs) = ?s ! (?fs + (i - ?F - ?fs))"
      using b len by (intro nth_drop) simp
    moreover have "?fs + (i - ?F - ?fs) = i - ?F" using that by linarith
    moreover have "?F \<le> i" "i < ?L" using that b by linarith+
    ultimately show ?thesis using nth [of i] by simp
  qed
  have colon: "mem ! (?F + ?fs + length ?tw) = 0x3A" if "?fs + length ?tw < sv_size path"
  proof -
    have "length (takeWhile (\<lambda>c. c \<noteq> 0x3A) (drop ?fs ?s)) < length (drop ?fs ?s)"
      using that len by (simp add: spec_stem_part_def)
    then have "\<not> drop ?fs ?s ! length (takeWhile (\<lambda>c. c \<noteq> 0x3A) (drop ?fs ?s)) \<noteq> 0x3A"
      by (rule takeWhile_stop)
    then have "drop ?fs ?s ! length ?tw = 0x3A" by (simp add: spec_stem_part_def)
    moreover have "drop ?fs ?s ! length ?tw = ?s ! (?fs + length ?tw)"
      using b len by (intro nth_drop) simp
    moreover have "mem ! (?F + ?fs + length ?tw) = ?s ! (?F + ?fs + length ?tw - ?F)"
      using that by (intro nth) simp_all
    ultimately show ?thesis by (simp add: add.assoc)
  qed
  have k1: "utf8_filename mem path = Some ?fn" by (rule fn)
  have k2: "utf8_stem mem path = Some ?st" by (rule st)
  have k3: "utf8_extension mem path = Some ?ex" by (rule ex)
  have k4: "sv_contents mem ?st @ sv_contents mem ?ex = without_ads (sv_contents mem ?fn)"
      by (rule cat)
  have k5: "sv_data ?st = sv_data ?fn" by simp
  have k6: "sv_data ?ex = sv_data ?st + sv_size ?st" by simp
  have k7: "sv_data ?ex + sv_size ?ex = sv_data ?fn + length (without_ads (sv_contents mem ?fn))"
      unfolding wa using b(3) by simp
  have k8: "sv_data ?ex + sv_size ?ex \<le> sv_data ?fn + sv_size ?fn"
      using b by simp
  have k9: "\<forall>i. sv_data ?fn \<le> i \<and> i < sv_data ?ex + sv_size ?ex \<longrightarrow> mem ! i \<noteq> 0x3A"
      using before b(3) by (simp add: add.assoc)
  have k10: "sv_data ?ex + sv_size ?ex < sv_data ?fn + sv_size ?fn \<longrightarrow>
                mem ! (sv_data ?ex + sv_size ?ex) = 0x3A"
      using colon b by (simp add: add.assoc)
  have k11: "0x3A \<notin> set (sv_contents mem ?st)" by (rule nst)
  have k12: "0x3A \<notin> set (sv_contents mem ?ex)" by (rule nex)
  have general: "\<exists>fn st ex.
            utf8_filename mem path = Some fn
          \<and> utf8_stem mem path = Some st
          \<and> utf8_extension mem path = Some ex
          \<and> sv_contents mem st @ sv_contents mem ex = without_ads (sv_contents mem fn)
          \<and> sv_data st = sv_data fn
          \<and> sv_data ex = sv_data st + sv_size st
          \<and> sv_data ex + sv_size ex = sv_data fn + length (without_ads (sv_contents mem fn))
          \<and> sv_data ex + sv_size ex \<le> sv_data fn + sv_size fn
          \<and> (\<forall>i. sv_data fn \<le> i \<and> i < sv_data ex + sv_size ex \<longrightarrow> mem ! i \<noteq> 0x3A)
          \<and> (sv_data ex + sv_size ex < sv_data fn + sv_size fn \<longrightarrow>
                mem ! (sv_data ex + sv_size ex) = 0x3A)
          \<and> 0x3A \<notin> set (sv_contents mem st)
          \<and> 0x3A \<notin> set (sv_contents mem ex)"
    by (intro exI [of _ ?fn] exI [of _ ?st] exI [of _ ?ex] conjI)
      (rule k1 k2 k3 k4 k5 k6 k7 k8 k9 k10 k11 k12)+
  have ex1: "on_path utf8_stem (bytes ''name:stream'') = Some (bytes ''name'')"
    by (simp add: utf8_eval)
  have ex2: "on_path utf8_extension (bytes ''name:stream'') = Some (bytes [])"
    by (simp add: utf8_eval)
  show ?thesis using general ex1 ex2 by (intro conjI)
qed

theorem stem_extension_concat_witness:
  "sv_valid (bytes ''a/b.c:d'') \<lparr>sv_data = 0, sv_size = 7\<rparr>
   \<and> utf8_filename (bytes ''a/b.c:d'') \<lparr>sv_data = 0, sv_size = 7\<rparr> = Some \<lparr>sv_data = 2, sv_size = 5\<rparr>
   \<and> utf8_stem (bytes ''a/b.c:d'') \<lparr>sv_data = 0, sv_size = 7\<rparr> = Some \<lparr>sv_data = 2, sv_size = 1\<rparr>
   \<and> utf8_extension (bytes ''a/b.c:d'') \<lparr>sv_data = 0, sv_size = 7\<rparr> = Some \<lparr>sv_data = 3, sv_size = 2\<rparr>
   \<and> without_ads (bytes ''b.c:d'') = bytes ''b.c''
   \<and> (3::nat) + 2 < 2 + 5
   \<and> bytes ''a/b.c:d'' ! (3 + 2) = 0x3A"
  using stem_extension_concat [of "bytes ''a/b.c:d''" "\<lparr>sv_data = 0, sv_size = 7\<rparr>"]
  by (simp add: utf8_eval sv_valid_def without_ads_def)

text \<open>
  C10. The two namespaces have the same grammar: on a narrow sequence and on the same
  sequence at the wide width (every unit with the same value), every function of
  \<^verbatim>\<open>util::wide\<close> returns what the function of that name in \<^verbatim>\<open>util::utf8\<close> returns, the
  same boundary or the same view, and the views cover the same units.
\<close>

theorem wide_utf8_grammar_identical:
  "map unat (widen mem) = map unat mem
   \<and> wide_is_slash (ucast c) = utf8_is_slash c
   \<and> wide_is_drive_prefix (widen mem) First = utf8_is_drive_prefix mem First
   \<and> wide_has_drive_letter_prefix (widen mem) First Last = utf8_has_drive_letter_prefix mem First Last
   \<and> wide_find_root_name_end (widen mem) First Last = utf8_find_root_name_end mem First Last
   \<and> wide_find_relative_path (widen mem) First Last = utf8_find_relative_path mem First Last
   \<and> wide_find_filename (widen mem) First Last = utf8_find_filename mem First Last
   \<and> wide_find_extension (widen mem) First Last = utf8_find_extension mem First Last
   \<and> wide_root_name (widen mem) path = utf8_root_name mem path
   \<and> wide_relative_path (widen mem) path = utf8_relative_path mem path
   \<and> wide_parent_path (widen mem) path = utf8_parent_path mem path
   \<and> wide_filename (widen mem) path = utf8_filename mem path
   \<and> wide_stem (widen mem) path = utf8_stem mem path
   \<and> wide_extension (widen mem) path = utf8_extension mem path
   \<and> sv_contents (widen mem) v = widen (sv_contents mem v)"
proof -
  have "map unat (widen mem) = map unat mem"
    by (simp add: widen_def unat_ucast_8_16)
  then show ?thesis
    by (simp only: wide_is_slash_ucast wide_is_drive_prefix_widen wide_has_drive_letter_prefix_widen
        wide_find_root_name_end_widen wide_find_relative_path_widen wide_find_filename_widen
        wide_find_extension_widen wide_views_widen sv_contents_widen simp_thms)
qed

theorem wide_utf8_grammar_identical_witness:
  "wide_has_drive_letter_prefix (widen (bytes ''x:'')) 0 2 = Some True
   \<and> wide_find_root_name_end (widen (bytes ''//server/share'')) 0 14 = Some 8
   \<and> wide_stem (widen (bytes ''archive.tar.gz'')) \<lparr>sv_data = 0, sv_size = 14\<rparr>
       = Some \<lparr>sv_data = 0, sv_size = 11\<rparr>
   \<and> sv_contents (widen (bytes ''archive.tar.gz'')) \<lparr>sv_data = 0, sv_size = 11\<rparr>
       = widen (bytes ''archive.tar'')"
  using wide_utf8_grammar_identical [of "bytes ''x:''" _ 0 2]
    wide_utf8_grammar_identical [of "bytes ''//server/share''" _ 0 14]
    wide_utf8_grammar_identical [of "bytes ''archive.tar.gz''" _ _ _ "\<lparr>sv_data = 0, sv_size = 14\<rparr>"
      "\<lparr>sv_data = 0, sv_size = 11\<rparr>"]
  by (simp add: utf8_eval)

text \<open>
  C4, as stated: for each of the six component functions, applying the function to the view
  it returned gives that view again. This fails for every one of them: a device root-name of
  a slash and two question marks has no root-name when parsed alone, a relative-path or a
  filename that starts with a drive letter loses it, the parent of a parent is one directory
  higher, the stem of "a.b" is "a", and an extension parsed alone has no extension.
\<close>

theorem reparse_not_idempotent:
  "utf8_root_name (bytes ([CHR 0x5C] @ ''??'' @ [CHR 0x5C] @ ''x'')) \<lparr>sv_data = 0, sv_size = 5\<rparr>
     = Some \<lparr>sv_data = 0, sv_size = 3\<rparr>
   \<and> utf8_root_name (bytes ([CHR 0x5C] @ ''??'' @ [CHR 0x5C] @ ''x'')) \<lparr>sv_data = 0, sv_size = 3\<rparr>
     = Some \<lparr>sv_data = 0, sv_size = 0\<rparr>
   \<and> utf8_relative_path (bytes ''/c:/x'') \<lparr>sv_data = 0, sv_size = 5\<rparr> = Some \<lparr>sv_data = 1, sv_size = 4\<rparr>
   \<and> utf8_relative_path (bytes ''/c:/x'') \<lparr>sv_data = 1, sv_size = 4\<rparr> = Some \<lparr>sv_data = 4, sv_size = 1\<rparr>
   \<and> utf8_parent_path (bytes ''a/b/c'') \<lparr>sv_data = 0, sv_size = 5\<rparr> = Some \<lparr>sv_data = 0, sv_size = 3\<rparr>
   \<and> utf8_parent_path (bytes ''a/b/c'') \<lparr>sv_data = 0, sv_size = 3\<rparr> = Some \<lparr>sv_data = 0, sv_size = 1\<rparr>
   \<and> utf8_filename (bytes ''a/c:x'') \<lparr>sv_data = 0, sv_size = 5\<rparr> = Some \<lparr>sv_data = 2, sv_size = 3\<rparr>
   \<and> utf8_filename (bytes ''a/c:x'') \<lparr>sv_data = 2, sv_size = 3\<rparr> = Some \<lparr>sv_data = 4, sv_size = 1\<rparr>
   \<and> utf8_stem (bytes ''a.b.c'') \<lparr>sv_data = 0, sv_size = 5\<rparr> = Some \<lparr>sv_data = 0, sv_size = 3\<rparr>
   \<and> utf8_stem (bytes ''a.b.c'') \<lparr>sv_data = 0, sv_size = 3\<rparr> = Some \<lparr>sv_data = 0, sv_size = 1\<rparr>
   \<and> utf8_extension (bytes ''a.b'') \<lparr>sv_data = 0, sv_size = 3\<rparr> = Some \<lparr>sv_data = 1, sv_size = 2\<rparr>
   \<and> utf8_extension (bytes ''a.b'') \<lparr>sv_data = 1, sv_size = 2\<rparr> = Some \<lparr>sv_data = 3, sv_size = 0\<rparr>"
  by (simp add: utf8_eval)

text \<open>
  C4, amended. For every path, parsing a returned component again with the same function
  gives the component back exactly in these cases: \<^verbatim>\<open>root_name\<close>, unless the root-name
  is a slash and two question marks; \<^verbatim>\<open>relative_path\<close> and \<^verbatim>\<open>filename\<close>, unless the
  component starts with a drive letter and a colon; \<^verbatim>\<open>parent_path\<close>, when the parent has
  an empty relative-path; \<^verbatim>\<open>stem\<close>, when the stem is ".." or has no dot after its first
  unit; \<^verbatim>\<open>extension\<close>, when the extension is empty.
\<close>

theorem reparse_fixed_cases:
  assumes "sv_valid mem path"
  shows "\<exists>rn rp pp fn st ex.
           utf8_root_name mem path = Some rn
         \<and> utf8_relative_path mem path = Some rp
         \<and> utf8_parent_path mem path = Some pp
         \<and> utf8_filename mem path = Some fn
         \<and> utf8_stem mem path = Some st
         \<and> utf8_extension mem path = Some ex
         \<and> (utf8_root_name mem rn = Some rn \<longleftrightarrow>
               \<not> (sv_size rn = 3 \<and> mem ! (sv_data rn + 1) = 0x3F))
         \<and> (utf8_relative_path mem rp = Some rp \<longleftrightarrow>
               utf8_has_drive_letter_prefix mem (sv_data rp) (sv_data rp + sv_size rp) = Some False)
         \<and> (utf8_parent_path mem pp = Some pp \<longleftrightarrow>
               utf8_relative_path mem pp = Some \<lparr>sv_data = sv_data pp + sv_size pp, sv_size = 0\<rparr>)
         \<and> (utf8_filename mem fn = Some fn \<longleftrightarrow>
               utf8_has_drive_letter_prefix mem (sv_data fn) (sv_data fn + sv_size fn) = Some False)
         \<and> (utf8_stem mem st = Some st \<longleftrightarrow>
               sv_contents mem st = [0x2E, 0x2E]
               \<or> (\<forall>i. 0 < i \<and> i < sv_size st \<longrightarrow> mem ! (sv_data st + i) \<noteq> 0x2E))
         \<and> (utf8_extension mem ex = Some ex \<longleftrightarrow> sv_size ex = 0)"
proof -
  let ?s = "sv_contents mem path"
  let ?F = "sv_data path" and ?n = "sv_size path"
  let ?e = "spec_root_name_end ?s" and ?r = "spec_relative_start ?s"
  let ?p = "spec_parent_end ?s" and ?f = "spec_filename_start ?s"
  let ?tw = "spec_stem_part ?s"
  let ?es = "spec_extension_start ?tw"
  let ?rn = "\<lparr>sv_data = ?F, sv_size = ?e\<rparr>"
  let ?rp = "\<lparr>sv_data = ?F + ?r, sv_size = ?n - ?r\<rparr>"
  let ?pp = "\<lparr>sv_data = ?F, sv_size = ?p\<rparr>"
  let ?fn = "\<lparr>sv_data = ?F + ?f, sv_size = ?n - ?f\<rparr>"
  let ?st = "\<lparr>sv_data = ?F + ?f, sv_size = ?es\<rparr>"
  let ?ex = "\<lparr>sv_data = ?F + ?f + ?es, sv_size = length ?tw - ?es\<rparr>"
  have len: "length ?s = ?n" using assms by (rule utf8_views(8))
  have b: "?r \<le> ?n" "?p \<le> ?n" "?f \<le> ?n" "?f + length ?tw \<le> ?n" "?es \<le> length ?tw"
    using spec_relative_start_bounds(2) [of ?s] spec_parent_end_bounds(2) [of ?s]
      spec_filename_start_bounds(2) [of ?s] length_spec_stem_part [of ?s]
      spec_extension_start_le [of ?tw] len by simp_all
  have tw: "?tw = take (length ?tw) (drop ?f ?s)"
    by (simp add: spec_stem_part_def flip: takeWhile_eq_take)
  \<comment> \<open>the components are views of the storage\<close>
  have vrp: "sv_valid mem ?rp" using sv_valid_sub [OF assms, of ?r "?n - ?r"] b by simp
  have vpp: "sv_valid mem ?pp" using sv_valid_sub [OF assms, of 0 ?p] b by simp
  have vfn: "sv_valid mem ?fn" using sv_valid_sub [OF assms, of ?f "?n - ?f"] b by simp
  have vst: "sv_valid mem ?st" using sv_valid_sub [OF assms, of ?f ?es] b by simp
  have vex: "sv_valid mem ?ex"
    using sv_valid_sub [OF assms, of "?f + ?es" "length ?tw - ?es"] b by (simp add: add.assoc)
  \<comment> \<open>what they cover\<close>
  have crp: "sv_contents mem ?rp = drop ?r ?s"
    using sv_contents_sub [of ?r "?n - ?r" path mem] b len by simp
  have cfn: "sv_contents mem ?fn = drop ?f ?s"
    using sv_contents_sub [of ?f "?n - ?f" path mem] b len by simp
  have "sv_contents mem ?st = take ?es (drop ?f ?s)"
    using sv_contents_sub [of ?f ?es path mem] b by simp
  also have "\<dots> = take ?es ?tw" using b(5) by (subst (2) tw) (simp add: min_def)
  finally have cst: "sv_contents mem ?st = take ?es ?tw" .
  have hrp: "sv_contents mem ?rp = [] \<or> \<not> utf8_is_slash (sv_contents mem ?rp ! 0)"
  proof (cases "?r < length ?s")
    case True
    then have "\<not> utf8_is_slash (?s ! ?r)" by (rule spec_relative_start_props(2))
    then show ?thesis using True by (simp add: crp)
  next
    case False
    then show ?thesis by (simp add: crp)
  qed
  have hfn: "\<forall>x \<in> set (sv_contents mem ?fn). \<not> utf8_is_slash x"
  proof
    fix x assume "x \<in> set (sv_contents mem ?fn)"
    then obtain i where i: "i < length (drop ?f ?s)" "drop ?f ?s ! i = x"
      unfolding cfn by (auto simp: in_set_conv_nth)
    then have "\<not> utf8_is_slash (?s ! (?f + i))"
      by (intro spec_filename_start_props(1)) auto
    then show "\<not> utf8_is_slash x" using i b len by simp
  qed
  have hst: "\<forall>x \<in> set (sv_contents mem ?st). \<not> utf8_is_slash x \<and> x \<noteq> 0x3A"
  proof
    fix x assume "x \<in> set (sv_contents mem ?st)"
    then have x: "x \<in> set ?tw" unfolding cst by (rule in_set_takeD)
    then have "x \<in> set (drop ?f ?s)" "x \<noteq> 0x3A"
      using set_takeWhileD [of x "\<lambda>c. c \<noteq> 0x3A" "drop ?f ?s"]
      by (simp_all add: spec_stem_part_def)
    then show "\<not> utf8_is_slash x \<and> x \<noteq> 0x3A" using hfn cfn by simp
  qed
  have k1: "utf8_root_name mem path = Some ?rn" using assms by (rule utf8_views(1))
  have k2: "utf8_relative_path mem path = Some ?rp" using assms by (rule utf8_views(2))
  have k3: "utf8_parent_path mem path = Some ?pp" using assms by (rule utf8_views(3))
  have k4: "utf8_filename mem path = Some ?fn" using assms by (rule utf8_views(4))
  have k5: "utf8_stem mem path = Some ?st" using assms by (rule utf8_views(5))
  have k6: "utf8_extension mem path = Some ?ex" using assms by (rule utf8_views(6))
  have k7: "utf8_root_name mem ?rn = Some ?rn \<longleftrightarrow>
               \<not> (sv_size ?rn = 3 \<and> mem ! (sv_data ?rn + 1) = 0x3F)"
      using assms by (rule root_name_fixed_iff)
  have k8: "utf8_relative_path mem ?rp = Some ?rp \<longleftrightarrow>
               utf8_has_drive_letter_prefix mem (sv_data ?rp) (sv_data ?rp + sv_size ?rp) = Some False"
      using vrp hrp by (rule relative_path_fixed_iff)
  have k9: "utf8_parent_path mem ?pp = Some ?pp \<longleftrightarrow>
               utf8_relative_path mem ?pp = Some \<lparr>sv_data = sv_data ?pp + sv_size ?pp, sv_size = 0\<rparr>"
      using vpp by (rule parent_path_fixed_iff)
  have k10: "utf8_filename mem ?fn = Some ?fn \<longleftrightarrow>
               utf8_has_drive_letter_prefix mem (sv_data ?fn) (sv_data ?fn + sv_size ?fn) = Some False"
      using vfn hfn by (rule filename_fixed_iff)
  have k11: "utf8_stem mem ?st = Some ?st \<longleftrightarrow>
               sv_contents mem ?st = [0x2E, 0x2E]
               \<or> (\<forall>i. 0 < i \<and> i < sv_size ?st \<longrightarrow> mem ! (sv_data ?st + i) \<noteq> 0x2E)"
      using vst hst by (rule stem_fixed_iff)
  have k12: "utf8_extension mem ?ex = Some ?ex \<longleftrightarrow> sv_size ?ex = 0"
      using vex by (rule extension_fixed_iff)
  show ?thesis
    by (intro exI [of _ ?rn] exI [of _ ?rp] exI [of _ ?pp] exI [of _ ?fn] exI [of _ ?st]
        exI [of _ ?ex] conjI)
      (rule k1 k2 k3 k4 k5 k6 k7 k8 k9 k10 k11 k12)+
qed

theorem reparse_fixed_cases_witness:
  "sv_valid (bytes ''C:/a/b.txt'') \<lparr>sv_data = 0, sv_size = 10\<rparr>
   \<and> utf8_root_name (bytes ''C:/a/b.txt'') \<lparr>sv_data = 0, sv_size = 10\<rparr> = Some \<lparr>sv_data = 0, sv_size = 2\<rparr>
   \<and> utf8_root_name (bytes ''C:/a/b.txt'') \<lparr>sv_data = 0, sv_size = 2\<rparr> = Some \<lparr>sv_data = 0, sv_size = 2\<rparr>
   \<and> utf8_filename (bytes ''C:/a/b.txt'') \<lparr>sv_data = 0, sv_size = 10\<rparr> = Some \<lparr>sv_data = 5, sv_size = 5\<rparr>
   \<and> utf8_filename (bytes ''C:/a/b.txt'') \<lparr>sv_data = 5, sv_size = 5\<rparr> = Some \<lparr>sv_data = 5, sv_size = 5\<rparr>
   \<and> utf8_has_drive_letter_prefix (bytes ''C:/a/b.txt'') 5 10 = Some False
   \<and> utf8_extension (bytes ''C:/a/b.txt'') \<lparr>sv_data = 0, sv_size = 10\<rparr> = Some \<lparr>sv_data = 6, sv_size = 4\<rparr>
   \<and> utf8_extension (bytes ''C:/a/b.txt'') \<lparr>sv_data = 6, sv_size = 4\<rparr> \<noteq> Some \<lparr>sv_data = 6, sv_size = 4\<rparr>"
  using reparse_fixed_cases [of "bytes ''C:/a/b.txt''" "\<lparr>sv_data = 0, sv_size = 10\<rparr>"]
  by (simp add: utf8_eval sv_valid_def)

end
